theory Spec2Isabelle
  imports Main "HOL-Library.Multiset" "HOL-Library.Signed_Division" "HOL-Library.Word"
begin

section \<open>Machine integers of the Go source\<close>

text \<open>
  The block-mode program (\<^verbatim>\<open>package main\<close> with \<^verbatim>\<open>compressPart\<close>,
  \<^verbatim>\<open>divideFileIntoSegments\<close>, \<^verbatim>\<open>concatenateFiles\<close> and \<^verbatim>\<open>compressFileBlock\<close>)
  computes offsets in \<^verbatim>\<open>int64\<close>.  Go's signed arithmetic wraps around silently and its
  \<^verbatim>\<open>/\<close> and \<^verbatim>\<open>%\<close> truncate towards zero.  An \<^verbatim>\<open>int64\<close> is modelled as an \<^typ>\<open>int\<close>
  in the range \<open>[-2^63, 2^63)\<close>, every operation followed by the wrap-around.  The program
  is built for 64-bit targets, where \<^verbatim>\<open>int\<close> has 64 bits too and \<^verbatim>\<open>int64(threadCount)\<close>
  changes nothing.
\<close>

definition wrap64 :: "int \<Rightarrow> int" where
  "wrap64 x = (x + 2 ^ 63) mod 2 ^ 64 - 2 ^ 63"

definition add64 :: "int \<Rightarrow> int \<Rightarrow> int" where
  "add64 a b = wrap64 (a + b)"

definition sub64 :: "int \<Rightarrow> int \<Rightarrow> int" where
  "sub64 a b = wrap64 (a - b)"

definition mul64 :: "int \<Rightarrow> int \<Rightarrow> int" where
  "mul64 a b = wrap64 (a * b)"

text \<open>Go's \<^verbatim>\<open>a / b\<close> and \<^verbatim>\<open>a % b\<close> for a non-zero divisor (a zero divisor panics, which
  the caller below checks first).\<close>

definition quo64 :: "int \<Rightarrow> int \<Rightarrow> int" where
  "quo64 a b = wrap64 (a sdiv b)"

definition rem64 :: "int \<Rightarrow> int \<Rightarrow> int" where
  "rem64 a b = wrap64 (a smod b)"

text \<open>\<^verbatim>\<open>const oneMB = 1 << 20\<close>\<close>

definition oneMB :: int where
  "oneMB = 2 ^ 20"

text \<open>The largest file size for which \<^verbatim>\<open>fileSize + oneMB - 1\<close> does not overflow
  \<^verbatim>\<open>int64\<close>.\<close>

definition maxPlannedSize :: int where
  "maxPlannedSize = 2 ^ 63 - 2 ^ 20"

section \<open>Outcomes: results, errors and panics\<close>

text \<open>One constructor for each \<^verbatim>\<open>panic\<close> the program can raise.\<close>

datatype panic =
    IntegerDivideByZero
  | MakechanSizeOutOfRange
  | IndexOutOfRange
  | ReadOverEndOffset
  | SomeErrorsSeeAbove

text \<open>
  One constructor for each place where the program builds an \<^verbatim>\<open>error\<close>.  The text of
  the error is a fixed message followed by what \<^verbatim>\<open>fmt.Errorf\<close> formats into it: a file
  name, or the error of the failed call.  When that call is a call on a file
  (\<^verbatim>\<open>os.Open\<close>, \<^verbatim>\<open>os.Create\<close>, \<^verbatim>\<open>os.Stat\<close>, or \<^verbatim>\<open>Read\<close>, \<^verbatim>\<open>Write\<close> and \<^verbatim>\<open>Seek\<close> on an
  \<^verbatim>\<open>*os.File\<close>), its error is an \<^verbatim>\<open>*os.PathError\<close>, whose text names the path the
  file was opened with; the constructor carries that path.  The reason given by the
  operating system, the rest of the text, is not kept.  No message of \<^verbatim>\<open>compressPart\<close>
  formats the segment index itself, but the name of a part file begins and ends with it.
\<close>

datatype error =
    OpenInputFailed string
  | CreatePartFailed string
  | CreateEncoderFailed
  | ReadInputFailed string
  | WritePartFailed string
  | GetOffsetFailed string
  | StatFailed string
  | InvalidFilenamePattern string
  | InvalidIndexInFilename string
  | CreateOutputFailed string
  | OpenPartFailed string
  | WriteOutputFailed string
  | DecompressFailed

datatype 'a outcome = Ok 'a | Err error | Panic panic

section \<open>The segment planner\<close>

text \<open>
  The loop of \<^verbatim>\<open>divideFileIntoSegments\<close>,
  \<^verbatim>\<open>for i := 0; i < threadCount; i++ { end := start + segmentSizeMB*oneMB; ... }\<close>,
  with the loop variables \<^verbatim>\<open>i\<close>, \<^verbatim>\<open>start\<close>, \<^verbatim>\<open>remainingMB\<close> and \<^verbatim>\<open>segments\<close> as
  arguments.  A segment \<^verbatim>\<open>[2]int64{start, end}\<close> is a pair.  The counter stays below
  \<^verbatim>\<open>threadCount\<close>, so \<^verbatim>\<open>i++\<close> cannot overflow.
\<close>

function segmentLoop ::
  "int \<Rightarrow> int \<Rightarrow> int \<Rightarrow> int \<Rightarrow> int \<Rightarrow> int \<Rightarrow> (int \<times> int) list \<Rightarrow> (int \<times> int) list" where
  "segmentLoop fileSize threadCount segmentSizeMB i start remainingMB segments =
     (if i < threadCount then
        let end0 = add64 start (mul64 segmentSizeMB oneMB);
            end1 = (if remainingMB > 0 then add64 end0 oneMB else end0);
            remainingMB' = (if remainingMB > 0 then sub64 remainingMB 1 else remainingMB);
            end2 = (if end1 > fileSize then fileSize else end1)
        in segmentLoop fileSize threadCount segmentSizeMB (i + 1) end2 remainingMB'
             (segments @ [(start, end2)])
      else segments)"
  by pat_completeness auto
termination
  by (relation "measure (\<lambda>(fileSize, threadCount, segmentSizeMB, i, start, remainingMB, segments).
        nat (threadCount - i))") auto

declare segmentLoop.simps [simp del]

text \<open>\<^verbatim>\<open>divideFileIntoSegments\<close>; the division by \<^verbatim>\<open>int64(threadCount)\<close> panics when
  \<^verbatim>\<open>threadCount\<close> is zero.\<close>

definition divideFileIntoSegments :: "int \<Rightarrow> int \<Rightarrow> panic + (int \<times> int) list" where
  "divideFileIntoSegments fileSize threadCount =
     (let fileSizeMB = quo64 (sub64 (add64 fileSize oneMB) 1) oneMB
      in if threadCount = 0 then Inl IntegerDivideByZero
         else
           let segmentSizeMB = quo64 fileSizeMB threadCount;
               remainingMB = rem64 fileSizeMB threadCount
           in Inr (segmentLoop fileSize threadCount segmentSizeMB 0 0 remainingMB []))"

section \<open>Files, the codec and the Go library functions the program calls\<close>

type_synonym byte = "8 word"

text \<open>
  The file system.  Which file a path names is decided by the operating system, outside
  the program: \<^verbatim>\<open>0-a\<close> and \<^verbatim>\<open>./0-a\<close> are two paths to one file.  The model takes that
  decision as a parameter \<open>resolve\<close>, which maps every path to the file it names (an
  existing one, or the one that creating the path would make): two paths name the same
  file exactly when they resolve alike.  The file system maps a file, given by what its
  paths resolve to, to its content.  A file has one directory entry (no hard or symbolic
  links), and the directories do not change during a run, so that removing a path
  removes the file and \<open>resolve\<close> is the same for every call.
\<close>

type_synonym resolver = "string \<Rightarrow> string"

type_synonym filesystem = "string \<rightharpoonup> byte list"

text \<open>
  The zstd engine is outside the repository.  The two calls the program makes are
  parameters of the model: \<open>encodeAll level src\<close> for
  \<^verbatim>\<open>encoder.EncodeAll(src, nil)\<close> on an encoder created with
  \<^verbatim>\<open>zstd.EncoderLevelFromZstd(level)\<close>, which returns one frame, and \<open>decodeStream\<close> for
  reading a \<^verbatim>\<open>zstd.NewReader\<close> to its end, \<open>None\<close> when the decoder reports an error.
\<close>

type_synonym encoder = "int \<Rightarrow> byte list \<Rightarrow> byte list"
type_synonym decoder = "byte list \<Rightarrow> byte list option"

text \<open>\<^verbatim>\<open>filepath.Base\<close> with \<^verbatim>\<open>/\<close> as the separator: the last element of the path, after
  removing trailing slashes; \<^verbatim>\<open>"."\<close> for the empty path and \<^verbatim>\<open>"/"\<close> for a path of
  slashes only.\<close>

definition Base :: "string \<Rightarrow> string" where
  "Base path =
     (if path = [] then ''.''
      else
        let stripped = rev (dropWhile (\<lambda>c. c = CHR ''/'') (rev path));
            element = rev (takeWhile (\<lambda>c. c \<noteq> CHR ''/'') (rev stripped))
        in if element = [] then ''/'' else element)"

text \<open>\<^verbatim>\<open>strings.SplitN(s, "-", 2)\<close>: the text before the first \<^verbatim>\<open>-\<close> and the text after
  it, or \<^verbatim>\<open>s\<close> alone when it has no \<^verbatim>\<open>-\<close>.\<close>

definition SplitN_dash_2 :: "string \<Rightarrow> string list" where
  "SplitN_dash_2 s =
     (let first = takeWhile (\<lambda>c. c \<noteq> CHR ''-'') s
      in if length first = length s then [s] else [first, drop (Suc (length first)) s])"

text \<open>The verb \<^verbatim>\<open>%d\<close> of \<^verbatim>\<open>fmt.Sprintf\<close> on an \<^verbatim>\<open>int\<close>.\<close>

definition digitChar :: "nat \<Rightarrow> char" where
  "digitChar d = char_of (48 + d)"

fun decimal :: "nat \<Rightarrow> string" where
  "decimal n = (if n < 10 then [digitChar n] else decimal (n div 10) @ [digitChar (n mod 10)])"

declare decimal.simps [simp del]

definition fmt_d :: "int \<Rightarrow> string" where
  "fmt_d i = (if i < 0 then CHR ''-'' # decimal (nat (- i)) else decimal (nat i))"

text \<open>\<^verbatim>\<open>strconv.Atoi\<close>: an optional sign and at least one decimal digit, the value within
  \<^verbatim>\<open>int\<close> (64 bits); \<open>None\<close> when it returns an error.\<close>

definition digitValue :: "char \<Rightarrow> nat option" where
  "digitValue c =
     (let v = (of_char c :: nat) in if 48 \<le> v \<and> v \<le> 57 then Some (v - 48) else None)"

fun parseDigits :: "nat \<Rightarrow> string \<Rightarrow> nat option" where
  "parseDigits acc [] = Some acc"
| "parseDigits acc (c # cs) =
     (case digitValue c of None \<Rightarrow> None | Some d \<Rightarrow> parseDigits (acc * 10 + d) cs)"

definition Atoi :: "string \<Rightarrow> int option" where
  "Atoi s =
     (let (neg, ds) =
            (case s of
               [] \<Rightarrow> (False, s)
             | c # cs \<Rightarrow>
                 if c = CHR ''-'' then (True, cs)
                 else if c = CHR ''+'' then (False, cs)
                 else (False, s))
      in if ds = [] then None
         else case parseDigits 0 ds of
                None \<Rightarrow> None
              | Some m \<Rightarrow>
                  let v = (if neg then - int m else int m)
                  in if v < - (2 ^ 63) \<or> 2 ^ 63 \<le> v then None else Some v)"

section \<open>The segment worker\<close>

text \<open>
  Whether a call into the operating system or the codec fails is decided outside the
  program.  The model takes the decision as an argument, one \<open>fault\<close> for each worker:
  which of the calls of \<^verbatim>\<open>compressPart\<close> returns an error, the number counting the
  iterations of its read loop from 0.  \<^verbatim>\<open>os.Open\<close> fails as well when the file system
  has no file of that name.
\<close>

datatype fault =
    NoFault
  | OpenFails
  | CreateFails
  | NewWriterFails
  | ReadFails nat
  | WriteFails nat
  | SeekFails nat

text \<open>\<^verbatim>\<open>fmt.Sprintf("%d-%s-output-segment.part%d", segmentIndex, filepath.Base(inputFile),
  segmentIndex)\<close>\<close>

definition partName :: "string \<Rightarrow> int \<Rightarrow> string" where
  "partName inputFile segmentIndex =
     fmt_d segmentIndex @ ''-'' @ Base inputFile @ ''-output-segment.part'' @ fmt_d segmentIndex"

text \<open>
  The read loop of \<^verbatim>\<open>compressPart\<close>.  \<open>inputFile\<close> and \<open>outputFile\<close> are the paths
  the two handles were opened with, which their errors name, \<open>content\<close> is the content
  of the input file, \<open>pos\<close> the offset of its read handle, \<open>k\<close> the number of the
  iteration and \<open>out\<close> what has been written to the part file.  \<^verbatim>\<open>input.Read(buf)\<close> on a regular file returns the
  bytes from the offset on, at most \<^verbatim>\<open>len(buf) = oneMB\<close> of them, and none (with
  \<^verbatim>\<open>io.EOF\<close>) at the end of the file.  The loop returns in every iteration or moves the
  offset forward, so it ends at the end of the file at the latest.
\<close>

function readLoop ::
  "(byte list \<Rightarrow> byte list) \<Rightarrow> fault \<Rightarrow> string \<Rightarrow> string \<Rightarrow> byte list \<Rightarrow> int \<Rightarrow> nat \<Rightarrow> nat \<Rightarrow>
     byte list \<Rightarrow> unit outcome \<times> byte list" where
  "readLoop encode flt inputFile outputFile content endOffset k pos out =
     (if flt = ReadFails k then (Err (ReadInputFailed inputFile), out)
      else
        let data = take (nat oneMB) (drop pos content);
            n = length data
        in if n = 0 then (Ok (), out)
           else
             let compressed = encode data
             in if flt = WriteFails k then (Err (WritePartFailed outputFile), out)
                else
                  let out' = out @ compressed;
                      currentOffset = int (pos + n)
                  in if flt = SeekFails k then (Err (GetOffsetFailed inputFile), out')
                     else if currentOffset = endOffset then (Ok (), out')
                     else if currentOffset > endOffset then (Panic ReadOverEndOffset, out')
                     else readLoop encode flt inputFile outputFile content endOffset (Suc k)
                            (pos + n) out')"
  by pat_completeness auto
termination
  by (relation "measure (\<lambda>(encode, flt, inputFile, outputFile, content, endOffset, k, pos, out).
        length content - pos)")
     (auto simp: oneMB_def)

declare readLoop.simps [simp del]

text \<open>
  \<^verbatim>\<open>compressPart\<close>, returning the outcome and the file system it leaves.  \<^verbatim>\<open>os.Create\<close>
  makes the part file empty, and the file holds what the loop has written when the
  function returns, also when it returns an error or panics.  When the path of the part
  file names the input file itself, creating it has emptied the input, and that is what
  the reads find; otherwise they find the content the input had when it was opened.  The
  error of \<^verbatim>\<open>input.Seek(startOffset, 0)\<close> is not looked at by the source: a negative
  offset leaves the handle at 0.
\<close>

definition compressPart ::
  "resolver \<Rightarrow> encoder \<Rightarrow> fault \<Rightarrow> filesystem \<Rightarrow> string \<Rightarrow> int \<Rightarrow> int \<times> int \<Rightarrow> int \<Rightarrow>
     string outcome \<times> filesystem" where
  "compressPart resolve encodeAll flt fs inputFile segmentIndex offset compressionLevel =
     (case (if flt = OpenFails then None else fs (resolve inputFile)) of
        None \<Rightarrow> (Err (OpenInputFailed inputFile), fs)
      | Some opened \<Rightarrow>
          let outputFile = partName inputFile segmentIndex
          in if flt = CreateFails then (Err (CreatePartFailed outputFile), fs)
             else
               let fs1 = fs(resolve outputFile \<mapsto> [])
               in if flt = NewWriterFails then (Err CreateEncoderFailed, fs1)
                  else
                    let startOffset = fst offset;
                        endOffset = snd offset;
                        content = (if resolve outputFile = resolve inputFile then [] else opened);
                        (r, written) = readLoop (encodeAll compressionLevel) flt inputFile outputFile
                                         content endOffset 0 (nat startOffset) []
                    in (case r of
                          Ok u \<Rightarrow> Ok outputFile
                        | Err e \<Rightarrow> Err e
                        | Panic p \<Rightarrow> Panic p,
                        fs1(resolve outputFile \<mapsto> written)))"

section \<open>The reassembler\<close>

record FileWithIndex =
  Index :: int
  Name :: string

text \<open>The calls of \<^verbatim>\<open>concatenateFiles\<close> that can fail for reasons outside the program:
  creating the output file, and in the \<open>k\<close>-th \<^verbatim>\<open>io.Copy\<close> the first read of the part
  file or the first write to the output file.  Opening a part file fails when the file
  system has no such file.\<close>

datatype cfault = NoCFault | CreateOutFails | CopyReadFails nat | CopyWriteFails nat

text \<open>The first loop of \<^verbatim>\<open>concatenateFiles\<close>: the numeric index of every file name.\<close>

fun extractIndexes :: "string list \<Rightarrow> FileWithIndex list \<Rightarrow> error + FileWithIndex list" where
  "extractIndexes [] filesWithIndex = Inr filesWithIndex"
| "extractIndexes (filename # filenames) filesWithIndex =
     (let base = Base filename;
          parts = SplitN_dash_2 base
      in if length parts < 2 then Inl (InvalidFilenamePattern filename)
         else case Atoi (parts ! 0) of
                None \<Rightarrow> Inl (InvalidIndexInFilename filename)
              | Some index \<Rightarrow>
                  extractIndexes filenames
                    (filesWithIndex @ [\<lparr>Index = index, Name = filename\<rparr>]))"

text \<open>
  The second loop: every part file, in the sorted order, is opened and copied to the end
  of the output file.  A part file that is the output file itself is read while it is
  written: empty, nothing is copied; not empty, the copy feeds on what it has written and
  ends only when the file system refuses to let the file grow, with the error of that
  write (the content the file then has is not modelled).
\<close>

fun copyFiles ::
  "resolver \<Rightarrow> cfault \<Rightarrow> nat \<Rightarrow> string \<Rightarrow> FileWithIndex list \<Rightarrow> filesystem \<Rightarrow>
     unit outcome \<times> filesystem" where
  "copyFiles resolve cflt k outputFile [] fs = (Ok (), fs)"
| "copyFiles resolve cflt k outputFile (file # files) fs =
     (case fs (resolve (Name file)) of
        None \<Rightarrow> (Err (OpenPartFailed (Name file)), fs)
      | Some content \<Rightarrow>
          if cflt = CopyReadFails k then (Err (WriteOutputFailed (Name file)), fs)
          else if cflt = CopyWriteFails k then (Err (WriteOutputFailed outputFile), fs)
          else if resolve (Name file) = resolve outputFile \<and> content \<noteq> []
          then (Err (WriteOutputFailed outputFile), fs)
          else copyFiles resolve cflt (Suc k) outputFile files
                 (fs(resolve outputFile \<mapsto>
                       (case fs (resolve outputFile) of None \<Rightarrow> [] | Some old \<Rightarrow> old) @ content)))"

text \<open>The third loop: \<^verbatim>\<open>os.Remove(file.Name)\<close> for every part file.\<close>

fun removeFiles :: "resolver \<Rightarrow> FileWithIndex list \<Rightarrow> filesystem \<Rightarrow> filesystem" where
  "removeFiles resolve [] fs = fs"
| "removeFiles resolve (file # files) fs = removeFiles resolve files (fs(resolve (Name file) := None))"

text \<open>
  \<^verbatim>\<open>concatenateFiles\<close>.  \<^verbatim>\<open>sort.Slice\<close> orders by \<^verbatim>\<open>Index\<close> and promises nothing about
  the order of equal elements; the model sorts with \<^const>\<open>sort_key\<close>, which gives the
  only sorted order when the indexes are distinct, and the theorems about the order
  assume that they are.  \<^verbatim>\<open>os.Create(outputFile)\<close> empties the file the path names, also
  when that file is one of the part files, and the last loop removes every part file,
  also one that is the output file.
\<close>

definition concatenateFiles ::
  "resolver \<Rightarrow> cfault \<Rightarrow> filesystem \<Rightarrow> string list \<Rightarrow> string \<Rightarrow> unit outcome \<times> filesystem" where
  "concatenateFiles resolve cflt fs filenames outputFile =
     (case extractIndexes filenames [] of
        Inl e \<Rightarrow> (Err e, fs)
      | Inr filesWithIndex \<Rightarrow>
          let sorted = sort_key Index filesWithIndex
          in if cflt = CreateOutFails then (Err (CreateOutputFailed outputFile), fs)
             else
               (case copyFiles resolve cflt 0 outputFile sorted (fs(resolve outputFile \<mapsto> [])) of
                  (Ok u, fs') \<Rightarrow> (Ok (), removeFiles resolve sorted fs')
                | (r, fs') \<Rightarrow> (r, fs')))"

section \<open>The orchestrator\<close>

text \<open>
  \<^verbatim>\<open>compressFileBlock\<close> starts one goroutine for each \<^verbatim>\<open>i\<close> in \<^verbatim>\<open>0 .. numThreads-1\<close>.
  A goroutine reads the input file and writes its own part file only.  When the part
  files are different files and none of them is the input file, which the theorems about
  runs assume, the file system the goroutines leave does not depend on how they
  interleave; what does is the order in which they finish, which is the order of the names in the channel
  \<^verbatim>\<open>outputFileName\<close> and of the errors in \<^verbatim>\<open>errChan\<close>.  That order is the argument
  \<open>sched\<close>, a list of the worker indexes, and the model runs the workers in it.  The
  result has the panic of a worker if one panicked, the file system, the names received
  from \<^verbatim>\<open>outputFileName\<close> (\<^verbatim>\<open>""\<close> from a worker that failed) and the errors received
  from \<^verbatim>\<open>errChan\<close>.  \<^verbatim>\<open>offset[i]\<close> panics when \<^verbatim>\<open>i\<close> is out of range.
\<close>

fun runWorkers ::
  "resolver \<Rightarrow> encoder \<Rightarrow> (int \<Rightarrow> fault) \<Rightarrow> string \<Rightarrow> int \<Rightarrow> (int \<times> int) list \<Rightarrow> int list \<Rightarrow>
     filesystem \<Rightarrow> panic option \<times> filesystem \<times> string list \<times> error list" where
  "runWorkers resolve encodeAll flt inputFile compressionLevel offset [] fs = (None, fs, [], [])"
| "runWorkers resolve encodeAll flt inputFile compressionLevel offset (i # sched) fs =
     (if i < 0 \<or> int (length offset) \<le> i then (Some IndexOutOfRange, fs, [], [])
      else
        case compressPart resolve encodeAll (flt i) fs inputFile i (offset ! nat i)
               compressionLevel of
          (Panic p, fs') \<Rightarrow> (Some p, fs', [], [])
        | (Err e, fs') \<Rightarrow>
            (case runWorkers resolve encodeAll flt inputFile compressionLevel offset sched fs' of
               (p, fs'', names, errs) \<Rightarrow> (p, fs'', [] # names, e # errs))
        | (Ok outfile, fs') \<Rightarrow>
            (case runWorkers resolve encodeAll flt inputFile compressionLevel offset sched fs' of
               (p, fs'', names, errs) \<Rightarrow> (p, fs'', outfile # names, errs)))"

text \<open>
  \<^verbatim>\<open>compressFileBlock\<close>, with \<^verbatim>\<open>calculateSegment\<close> inlined (\<^verbatim>\<open>os.Stat\<close> fails when the
  file system has no input file; the size of a file fits \<^verbatim>\<open>int64\<close>).  The result is the
  outcome seen by the caller (\<open>Ok ()\<close> for the returned \<^verbatim>\<open>nil\<close>), the file system left
  behind, and the errors printed with \<^verbatim>\<open>fmt.Println(err.Error())\<close>.  The loop over
  \<^verbatim>\<open>errChan\<close> panics in its first iteration, and the value returned by
  \<^verbatim>\<open>concatenateFiles\<close> is dropped.  The line written to standard error is not modelled.
\<close>

definition compressFileBlock ::
  "resolver \<Rightarrow> encoder \<Rightarrow> (int \<Rightarrow> fault) \<Rightarrow> cfault \<Rightarrow> int list \<Rightarrow> filesystem \<Rightarrow> string \<Rightarrow> string \<Rightarrow>
     int \<Rightarrow> int \<Rightarrow> unit outcome \<times> filesystem \<times> error list" where
  "compressFileBlock resolve encodeAll flt cflt sched fs inputFile outputFile compressionLevel
       numThreads =
     (case fs (resolve inputFile) of
        None \<Rightarrow> (Err (StatFailed inputFile), fs, [])
      | Some content \<Rightarrow>
          (case divideFileIntoSegments (int (length content)) numThreads of
             Inl p \<Rightarrow> (Panic p, fs, [])
           | Inr offset \<Rightarrow>
               if numThreads < 0 then (Panic MakechanSizeOutOfRange, fs, [])
               else
                 (case runWorkers resolve encodeAll flt inputFile compressionLevel offset sched
                         fs of
                    (Some p, fs', outputFiles, errs) \<Rightarrow> (Panic p, fs', [])
                  | (None, fs', outputFiles, errs) \<Rightarrow>
                      (case errs of
                         err # rest \<Rightarrow> (Panic SomeErrorsSeeAbove, fs', [err])
                       | [] \<Rightarrow>
                           (case concatenateFiles resolve cflt fs' outputFiles outputFile of
                              (r, fs'') \<Rightarrow> (Ok (), fs'', []))))))"

text \<open>\<^verbatim>\<open>decompressFile\<close> on the bytes of its reader: the bytes written to its writer, or
  the error.\<close>

definition decompressFile :: "decoder \<Rightarrow> byte list \<Rightarrow> byte list outcome" where
  "decompressFile decodeStream input =
     (case decodeStream input of None \<Rightarrow> Err DecompressFailed | Some out \<Rightarrow> Ok out)"

section \<open>Notions used to state and prove the properties\<close>

text \<open>One pass of the planner's loop body: the end of the segment that starts at \<open>start\<close>
  and the units left over afterwards.\<close>

definition segEnd :: "int \<Rightarrow> int \<Rightarrow> int \<Rightarrow> int \<Rightarrow> int" where
  "segEnd fileSize segmentSizeMB start remainingMB =
     (let end0 = add64 start (mul64 segmentSizeMB oneMB);
          end1 = (if remainingMB > 0 then add64 end0 oneMB else end0)
      in if end1 > fileSize then fileSize else end1)"

definition segRem :: "int \<Rightarrow> int" where
  "segRem remainingMB = (if remainingMB > 0 then sub64 remainingMB 1 else remainingMB)"

text \<open>A list of segments that starts at \<open>s\<close>, ends at \<open>e\<close>, and in which every segment
  starts where the one before it ends and does not end before it starts.\<close>

fun chained :: "int \<Rightarrow> (int \<times> int) list \<Rightarrow> int \<Rightarrow> bool" where
  "chained s [] e = (s = e)"
| "chained s (p # ps) e = (fst p = s \<and> s \<le> snd p \<and> chained (snd p) ps e)"

text \<open>The partition property of a plan for a file of \<open>fileSize\<close> bytes: the list index is
  the segment index; the segments are contiguous from 0 to \<open>fileSize\<close>, ordered, pairwise
  disjoint as byte ranges, and cover exactly the bytes \<open>0 ..< fileSize\<close>.\<close>

definition segmentsPartition :: "(int \<times> int) list \<Rightarrow> int \<Rightarrow> bool" where
  "segmentsPartition segs fileSize \<longleftrightarrow>
     segs \<noteq> [] \<and> fst (hd segs) = 0 \<and> snd (last segs) = fileSize \<and>
     (\<forall>i. Suc i < length segs \<longrightarrow> fst (segs ! Suc i) = snd (segs ! i)) \<and>
     (\<forall>i < length segs. fst (segs ! i) \<le> snd (segs ! i)) \<and>
     (\<forall>i j. i < j \<and> j < length segs \<longrightarrow> snd (segs ! i) \<le> fst (segs ! j)) \<and>
     (\<forall>i j. i < j \<and> j < length segs \<longrightarrow>
        {fst (segs ! i) ..< snd (segs ! i)} \<inter> {fst (segs ! j) ..< snd (segs ! j)} = {}) \<and>
     (\<Union>p \<in> set segs. {fst p ..< snd p}) = {0 ..< fileSize}"

text \<open>A list cut into pieces of \<open>n\<close> elements, the last one possibly shorter: the blocks
  that successive reads of \<open>n\<close> bytes return.\<close>

fun chunksOf :: "nat \<Rightarrow> 'a list \<Rightarrow> 'a list list" where
  "chunksOf n xs = (if n = 0 \<or> xs = [] then [] else take n xs # chunksOf n (drop n xs))"

declare chunksOf.simps [simp del]

text \<open>The bytes of a segment: those at the offsets from its start up to its end.\<close>

definition segmentBytes :: "byte list \<Rightarrow> int \<times> int \<Rightarrow> byte list" where
  "segmentBytes content seg = take (nat (snd seg) - nat (fst seg)) (drop (nat (fst seg)) content)"

text \<open>
  A small codec for the concrete examples, standing in for zstd: a frame holds every
  source byte behind a byte 1 and ends with a byte 0, and the decoder reads frames until
  the input ends.
\<close>

definition toyEncodeAll :: encoder where
  "toyEncodeAll level src = concat (map (\<lambda>b. [1, b]) src) @ [0]"

fun toyDecodeStream :: decoder where
  "toyDecodeStream [] = Some []"
| "toyDecodeStream [t] = (if t = 0 then Some [] else None)"
| "toyDecodeStream (t # b # rest) =
     (if t = 0 then toyDecodeStream (b # rest)
      else map_option ((#) b) (toyDecodeStream rest))"

text \<open>
  A path resolution for the concrete examples, in which all paths are relative to one
  directory: a leading \<^verbatim>\<open>./\<close> does not change the file a path names.
\<close>

function stripDotSlash :: resolver where
  "stripDotSlash path = (if take 2 path = ''./'' then stripDotSlash (drop 2 path) else path)"
  by pat_completeness auto
termination
proof (relation "measure length")
  show "wf (measure length)" by simp
  fix path :: string
  assume "take 2 path = ''./''"
  then have "path \<noteq> []" by auto
  then show "(drop 2 path, path) \<in> measure length" by simp
qed

declare stripDotSlash.simps [simp del]

text \<open>
  The condition under which the read loop, with its handle at \<open>pos\<close>, stays within a
  segment that ends at \<open>e\<close>: the handle is before the end or at the end of the file, and
  both are at multiples of 1 MiB or at the end of the file.
\<close>

definition inSegment :: "byte list \<Rightarrow> int \<Rightarrow> nat \<Rightarrow> bool" where
  "inSegment content e pos \<longleftrightarrow>
     int pos \<le> e \<and> e \<le> int (length content) \<and>
     (int pos < e \<or> pos = length content) \<and>
     (oneMB dvd int pos \<or> pos = length content) \<and>
     (oneMB dvd e \<or> e = int (length content))"

text \<open>The index \<^verbatim>\<open>concatenateFiles\<close> reads from a file name, \<open>None\<close> where it returns an
  error.\<close>

definition fileIndex :: "string \<Rightarrow> int option" where
  "fileIndex filename =
     (let parts = SplitN_dash_2 (Base filename)
      in if length parts < 2 then None else Atoi (parts ! 0))"

text \<open>The entry \<^verbatim>\<open>concatenateFiles\<close> makes for a file name whose index it can read.\<close>

definition withIndex :: "string \<Rightarrow> FileWithIndex" where
  "withIndex filename = \<lparr>Index = the (fileIndex filename), Name = filename\<rparr>"

text \<open>What a worker with no failing call writes to its part file: one frame for each
  block of at most 1 MiB of its segment.\<close>

definition partContent :: "encoder \<Rightarrow> int \<Rightarrow> byte list \<Rightarrow> int \<times> int \<Rightarrow> byte list" where
  "partContent encodeAll level content seg =
     concat (map (encodeAll level) (chunksOf (nat oneMB) (segmentBytes content seg)))"

text \<open>The error, if any, that the worker for segment \<open>i\<close> of the plan \<open>offset\<close> sends to
  \<^verbatim>\<open>errChan\<close>.\<close>

definition workerError ::
  "resolver \<Rightarrow> encoder \<Rightarrow> (int \<Rightarrow> fault) \<Rightarrow> filesystem \<Rightarrow> string \<Rightarrow> int \<Rightarrow> (int \<times> int) list \<Rightarrow>
     int \<Rightarrow> error option" where
  "workerError resolve encodeAll flt fs inputFile level offset i =
     (case fst (compressPart resolve encodeAll (flt i) fs inputFile i (offset ! nat i) level) of
        Err e \<Rightarrow> Some e
      | _ \<Rightarrow> None)"

text \<open>The files that the names of the part files of a run with \<open>numThreads\<close> workers
  name.\<close>

definition partKeys :: "resolver \<Rightarrow> string \<Rightarrow> int \<Rightarrow> string list" where
  "partKeys resolve inputFile numThreads =
     map (\<lambda>i. resolve (partName inputFile i)) [0 .. numThreads - 1]"

text \<open>The fault hits one of the calls that \<^verbatim>\<open>concatenateFiles\<close> makes for \<open>n\<close> part
  files.\<close>

fun failsWithin :: "cfault \<Rightarrow> nat \<Rightarrow> bool" where
  "failsWithin NoCFault n = False"
| "failsWithin CreateOutFails n = True"
| "failsWithin (CopyReadFails k) n = (k < n)"
| "failsWithin (CopyWriteFails k) n = (k < n)"

text \<open>Every worker index of \<open>sched\<close> has a segment in the plan \<open>offset\<close>, within which
  the read loop stays.\<close>

definition plannedFor :: "byte list \<Rightarrow> (int \<times> int) list \<Rightarrow> int list \<Rightarrow> bool" where
  "plannedFor content offset sched \<longleftrightarrow>
     (\<forall>i \<in> set sched. 0 \<le> i \<and> i < int (length offset) \<and>
        inSegment content (snd (offset ! nat i)) (nat (fst (offset ! nat i))))"

section \<open>The planner: arithmetic without overflow\<close>

lemma wrap64_id: "- (2 ^ 63) \<le> x \<Longrightarrow> x < 2 ^ 63 \<Longrightarrow> wrap64 x = x"
  by (simp add: wrap64_def)

lemma wrap64_sub_wrap64: "wrap64 (wrap64 a - b) = wrap64 (a - b)"
proof -
  have "(wrap64 a - b + 2 ^ 63) mod 2 ^ 64 = ((a + 2 ^ 63) mod 2 ^ 64 - b) mod 2 ^ 64"
    by (simp add: wrap64_def)
  also have "\<dots> = (a + 2 ^ 63 - b) mod 2 ^ 64"
    by (rule mod_diff_left_eq)
  finally show ?thesis
    by (simp add: wrap64_def algebra_simps)
qed

lemma fileSizeMB_nowrap:
  assumes "0 \<le> fileSize" "fileSize \<le> maxPlannedSize"
  shows "quo64 (sub64 (add64 fileSize oneMB) 1) oneMB = (fileSize + oneMB - 1) div oneMB"
proof -
  have a: "sub64 (add64 fileSize oneMB) 1 = fileSize + oneMB - 1"
    unfolding sub64_def add64_def wrap64_sub_wrap64
    using assms by (intro wrap64_id) (simp_all add: oneMB_def maxPlannedSize_def)
  have b: "0 \<le> fileSize + oneMB - 1" using assms by (simp add: oneMB_def)
  have c: "(fileSize + oneMB - 1) sdiv oneMB = (fileSize + oneMB - 1) div oneMB"
    using b by (simp add: signed_divide_int_def oneMB_def sgn_if)
  have d: "(fileSize + oneMB - 1) div oneMB \<le> fileSize + oneMB - 1"
    using b by (simp add: oneMB_def) 
  have e: "0 \<le> (fileSize + oneMB - 1) div oneMB"
    using b by (simp add: oneMB_def)
  show ?thesis unfolding quo64_def a c
    using d e assms by (intro wrap64_id) (simp_all add: oneMB_def maxPlannedSize_def)
qed

lemma quo64_nonneg: 
  assumes "0 \<le> a" "a < 2 ^ 63" "0 < b"
  shows "quo64 a b = a div b"
proof -
  have c: "a sdiv b = a div b"
    using assms by (simp add: signed_divide_int_def sgn_if)
  have "a div b \<le> a" using assms
    using zdiv_mono2 [of a 1 b] by simp
  moreover have "0 \<le> a div b" using assms by (simp add: pos_imp_zdiv_nonneg_iff)
  ultimately show ?thesis unfolding quo64_def c using assms by (intro wrap64_id) linarith+
qed

lemma rem64_nonneg: 
  assumes "0 \<le> a" "a < 2 ^ 63" "0 < b"
  shows "rem64 a b = a mod b"
proof -
  have c: "a smod b = a mod b"
    using assms by (simp add: signed_modulo_int_def sgn_if)
  have "a mod b \<le> a" using assms by (simp add: zmod_le_nonneg_dividend)
  moreover have "0 \<le> a mod b" using assms by simp
  ultimately show ?thesis unfolding rem64_def c using assms by (intro wrap64_id) linarith+
qed

section \<open>The planner: the loop\<close>

lemma segmentLoop_unfold:
  "i < n \<Longrightarrow> segmentLoop f n q i s r segs =
     segmentLoop f n q (i + 1) (segEnd f q s r) (segRem r) (segs @ [(s, segEnd f q s r)])"
  by (subst segmentLoop.simps) (simp add: segEnd_def segRem_def Let_def)

lemma segmentLoop_done: "\<not> i < n \<Longrightarrow> segmentLoop f n q i s r segs = segs"
  by (subst segmentLoop.simps) simp

lemma segmentLoop_acc_aux:
  "nat (n - i) = k \<Longrightarrow> segmentLoop f n q i s r segs = segs @ segmentLoop f n q i s r []"
proof (induction k arbitrary: i s r segs)
  case 0
  then have "\<not> i < n" by simp
  then show ?case by (simp add: segmentLoop_done)
next
  case (Suc k)
  then have lt: "i < n" and k: "nat (n - (i + 1)) = k" by simp_all
  show ?case
    unfolding segmentLoop_unfold [OF lt]
    by (subst Suc.IH [OF k], subst (2) Suc.IH [OF k]) simp
qed

lemma segmentLoop_Cons:
  "i < n \<Longrightarrow> segmentLoop f n q i s r [] =
     (s, segEnd f q s r) # segmentLoop f n q (i + 1) (segEnd f q s r) (segRem r) []"
  by (simp add: segmentLoop_unfold segmentLoop_acc_aux [OF refl, of _ _ _ _ _ _ "[_]"])

lemma segEnd_nowrap:
  assumes f: "0 \<le> f" "f \<le> maxPlannedSize"
    and U: "f \<le> U * oneMB" "U * oneMB < f + oneMB"
    and c: "0 \<le> c" "0 \<le> q" "0 \<le> r"
    and le: "c + q + (if 0 < r then 1 else 0) \<le> U"
  shows "segEnd f q (min (c * oneMB) f) r = min ((c + q + (if 0 < r then 1 else 0)) * oneMB) f"
proof -
  have qM: "mul64 q oneMB = q * oneMB"
    unfolding mul64_def using f U c le
    by (intro wrap64_id) (simp_all add: oneMB_def maxPlannedSize_def split: if_splits)
  show ?thesis
  proof (cases "c * oneMB \<le> f")
    case True
    have e0: "add64 (c * oneMB) (q * oneMB) = (c + q) * oneMB"
      unfolding add64_def using f U c le
      by (intro trans [OF wrap64_id]) (simp_all add: oneMB_def maxPlannedSize_def algebra_simps split: if_splits)
    have e1: "0 < r \<Longrightarrow> add64 ((c + q) * oneMB) oneMB = (c + q + 1) * oneMB"
      unfolding add64_def using f U c le
      by (intro trans [OF wrap64_id]) (simp_all add: oneMB_def maxPlannedSize_def algebra_simps split: if_splits)
    from True show ?thesis
      by (simp add: segEnd_def Let_def qM e0 e1 min_def)
  next
    case False
    then have "U \<le> c" using U by (simp add: oneMB_def)
    with le c have "q = 0" "\<not> 0 < r" by (simp_all split: if_splits)
    moreover have "add64 f 0 = f"
      unfolding add64_def using f by (simp add: wrap64_id maxPlannedSize_def)
    moreover have "mul64 0 oneMB = 0" by (simp add: mul64_def wrap64_def)
    ultimately show ?thesis using False U \<open>U \<le> c\<close> le
      by (simp add: segEnd_def Let_def min_def oneMB_def)
  qed
qed

lemma segRem_nowrap: "0 \<le> r \<Longrightarrow> r < 2 ^ 63 \<Longrightarrow> segRem r = (if 0 < r then r - 1 else r)"
  unfolding segRem_def sub64_def by (simp add: wrap64_id)

lemma segmentLoop_inv:
  assumes f: "0 \<le> f" "f \<le> maxPlannedSize"
    and U: "f \<le> U * oneMB" "U * oneMB < f + oneMB"
    and q: "0 \<le> q"
  shows "nat (n - i) = k \<Longrightarrow> i \<le> n \<Longrightarrow> 0 \<le> c \<Longrightarrow> 0 \<le> r \<Longrightarrow> r \<le> n - i \<Longrightarrow>
         c + (n - i) * q + r = U \<Longrightarrow>
         length (segmentLoop f n q i (min (c * oneMB) f) r []) = k \<and>
         chained (min (c * oneMB) f) (segmentLoop f n q i (min (c * oneMB) f) r []) f \<and>
         (\<forall>p \<in> set (segmentLoop f n q i (min (c * oneMB) f) r []).
            (oneMB dvd fst p \<or> fst p = f) \<and> (oneMB dvd snd p \<or> snd p = f) \<and>
            (fst p = snd p \<longrightarrow> fst p = f))"
proof (induction k arbitrary: i c r)
  case 0
  then have "i = n" by simp
  with 0 have "c = U" by simp
  with U have "min (c * oneMB) f = f" by simp
  then show ?case using \<open>i = n\<close> by (simp add: segmentLoop_done)
next
  case (Suc k)
  then have lt: "i < n" and k: "nat (n - (i + 1)) = k" by simp_all
  define c' where "c' = c + q + (if 0 < r then 1 else 0)"
  define r' where "r' = (if 0 < r then r - 1 else r)"
  define t where "t = (n - (i + 1)) * q"
  have t: "0 \<le> t" using lt q by (simp add: t_def)
  have "(n - i) * q = t + q" by (simp add: t_def algebra_simps)
  with Suc.prems have sum: "c + (t + q) + r = U" by simp
  have c'U: "c' \<le> U" using sum t Suc.prems(3,4) by (simp add: c'_def split: if_splits)
  have rU: "r < 2 ^ 63"
  proof -
    have "r \<le> U" using sum t q Suc.prems(3) by linarith
    moreover have "U < 2 ^ 63" using U f by (simp add: oneMB_def maxPlannedSize_def) 
    ultimately show ?thesis by simp
  qed
  have e: "segEnd f q (min (c * oneMB) f) r = min (c' * oneMB) f"
    unfolding c'_def using f U Suc.prems q c'U [unfolded c'_def]
    by (intro segEnd_nowrap) simp_all
  have r: "segRem r = r'"
    unfolding r'_def using Suc.prems rU by (intro segRem_nowrap) simp_all
  have IH: "length (segmentLoop f n q (i + 1) (min (c' * oneMB) f) r' []) = k \<and>
         chained (min (c' * oneMB) f) (segmentLoop f n q (i + 1) (min (c' * oneMB) f) r' []) f \<and>
         (\<forall>p \<in> set (segmentLoop f n q (i + 1) (min (c' * oneMB) f) r' []).
            (oneMB dvd fst p \<or> fst p = f) \<and> (oneMB dvd snd p \<or> snd p = f) \<and>
            (fst p = snd p \<longrightarrow> fst p = f))"
  proof (rule Suc.IH [OF k])
    show "i + 1 \<le> n" using lt by simp
    show "0 \<le> c'" using Suc.prems q by (simp add: c'_def)
    show "0 \<le> r'" using Suc.prems by (simp add: r'_def)
    show "r' \<le> n - (i + 1)" using Suc.prems lt by (simp add: r'_def)
    show "c' + (n - (i + 1)) * q + r' = U"
      using sum Suc.prems(4) by (simp add: c'_def r'_def t_def)
  qed
  have mono: "min (c * oneMB) f \<le> min (c' * oneMB) f"
    using q by (simp add: c'_def oneMB_def min_def)
  have al: "\<And>x. oneMB dvd min (x * oneMB) f \<or> min (x * oneMB) f = f"
    by (simp add: min_def)
  have empty: "min (c * oneMB) f = f" if eq: "min (c * oneMB) f = min (c' * oneMB) f"
  proof (rule ccontr)
    assume "min (c * oneMB) f \<noteq> f"
    then have lt_f: "c * oneMB < f" by (simp add: min_def split: if_splits)
    with eq have "c' * oneMB = c * oneMB" by (simp add: min_def split: if_splits)
    then have "c' = c" by (simp add: oneMB_def)
    then have "q = 0" "r = 0" using q Suc.prems(4) by (simp_all add: c'_def split: if_splits)
    with sum have "c = U" by (simp add: t_def)
    with U lt_f show False by simp
  qed
  show ?case
    unfolding segmentLoop_Cons [OF lt] e r
    using IH mono al [of c] al [of c'] empty by simp
qed

lemma chained_hd_last:
  "chained s L e \<Longrightarrow> L \<noteq> [] \<Longrightarrow> fst (hd L) = s \<and> snd (last L) = e"
  by (induction L arbitrary: s) auto

lemma chained_le: "chained s L e \<Longrightarrow> s \<le> e"
proof (induction L arbitrary: s)
  case Nil
  then show ?case by simp
next
  case (Cons x L)
  then have "s \<le> snd x" "snd x \<le> e" by simp_all
  then show ?case by simp
qed

lemma chained_bounds:
  "chained s L e \<Longrightarrow> p \<in> set L \<Longrightarrow> s \<le> fst p \<and> fst p \<le> snd p \<and> snd p \<le> e"
proof (induction L arbitrary: s)
  case Nil
  then show ?case by simp
next
  case (Cons x L)
  from Cons.prems have x: "fst x = s" "s \<le> snd x" "chained (snd x) L e" by simp_all
  show ?case
  proof (cases "p = x")
    case True
    then show ?thesis using x chained_le [OF x(3)] by simp
  next
    case False
    with Cons.prems have "p \<in> set L" by simp
    from Cons.IH [OF x(3) this] x show ?thesis by simp
  qed
qed

lemma chained_adjacent:
  "chained s L e \<Longrightarrow> Suc i < length L \<Longrightarrow> fst (L ! Suc i) = snd (L ! i)"
proof (induction L arbitrary: s i)
  case Nil
  then show ?case by simp
next
  case (Cons x L)
  show ?case
  proof (cases i)
    case 0
    with Cons.prems show ?thesis by (cases L) auto
  next
    case (Suc j)
    with Cons show ?thesis by auto
  qed
qed

lemma chained_ordered:
  "chained s L e \<Longrightarrow> i < j \<Longrightarrow> j < length L \<Longrightarrow> snd (L ! i) \<le> fst (L ! j)"
proof (induction L arbitrary: s i j)
  case Nil
  then show ?case by simp
next
  case (Cons x L)
  from Cons.prems obtain j' where j: "j = Suc j'" by (cases j) auto
  show ?case
  proof (cases i)
    case 0
    have "L ! j' \<in> set L" using Cons.prems j by simp
    with Cons.prems have "snd x \<le> fst (L ! j')" using chained_bounds [of "snd x" L e] by simp
    with 0 j show ?thesis by simp
  next
    case (Suc i')
    with Cons j show ?thesis by auto
  qed
qed

lemma chained_union:
  "chained s L e \<Longrightarrow> (\<Union>p \<in> set L. {fst p ..< snd p}) = {s ..< e}"
proof (induction L arbitrary: s)
  case Nil
  then show ?case by simp
next
  case (Cons x L)
  then have "snd x \<le> e" "s \<le> snd x" "fst x = s" using chained_le [of "snd x" L e] by auto
  then have "{s ..< snd x} \<union> {snd x ..< e} = {s ..< e}" by auto
  with Cons show ?case by auto
qed

lemma fileSizeMB_bounds:
  assumes "0 \<le> f"
  shows "f \<le> ((f + oneMB - 1) div oneMB) * oneMB"
    and "((f + oneMB - 1) div oneMB) * oneMB < f + oneMB"
    and "0 \<le> (f + oneMB - 1) div oneMB"
  using assms by (simp_all add: oneMB_def)

lemma divideFileIntoSegments_plan:
  assumes f: "0 \<le> fileSize" "fileSize \<le> maxPlannedSize" and n: "1 \<le> threadCount"
  shows "\<exists>segs. divideFileIntoSegments fileSize threadCount = Inr segs \<and>
           length segs = nat threadCount \<and> chained 0 segs fileSize \<and>
           (\<forall>p \<in> set segs. (oneMB dvd fst p \<or> fst p = fileSize) \<and>
                             (oneMB dvd snd p \<or> snd p = fileSize) \<and>
                             (fst p = snd p \<longrightarrow> fst p = fileSize))"
proof -
  define U where "U = (fileSize + oneMB - 1) div oneMB"
  define q where "q = U div threadCount"
  define r where "r = U mod threadCount"
  have U: "fileSize \<le> U * oneMB" "U * oneMB < fileSize + oneMB" "0 \<le> U"
    unfolding U_def using fileSizeMB_bounds [OF f(1)] by simp_all
  have U63: "U < 2 ^ 63" using U f by (simp add: oneMB_def maxPlannedSize_def)
  have q: "quo64 U threadCount = q" unfolding q_def using U U63 n by (intro quo64_nonneg) simp_all
  have r: "rem64 U threadCount = r" unfolding r_def using U U63 n by (intro rem64_nonneg) simp_all
  have q0: "0 \<le> q" unfolding q_def using U n by (simp add: pos_imp_zdiv_nonneg_iff)
  have r0: "0 \<le> r" "r \<le> threadCount - 0" unfolding r_def using n
    by (simp_all add: less_imp_le)
  have sum: "0 + (threadCount - 0) * q + r = U" by (simp add: q_def r_def)
  have eq: "divideFileIntoSegments fileSize threadCount =
          Inr (segmentLoop fileSize threadCount q 0 (min (0 * oneMB) fileSize) r [])"
    using n f(1) by (simp add: divideFileIntoSegments_def fileSizeMB_nowrap [OF f] U_def [symmetric] q r Let_def)
  have n0: "(0::int) \<le> threadCount" using n by simp
  from segmentLoop_inv [OF f U(1,2) q0 refl n0 order_refl r0 sum]
  show ?thesis unfolding eq using f(1) by simp
qed

lemma segmentLoop_length:
  "nat (n - i) = k \<Longrightarrow> length (segmentLoop f n q i s r segs) = length segs + k"
proof (induction k arbitrary: i s r segs)
  case 0
  then have "\<not> i < n" by simp
  then show ?case using 0 by (simp add: segmentLoop_done)
next
  case (Suc k)
  then have lt: "i < n" and k: "nat (n - (i + 1)) = k" by simp_all
  show ?case unfolding segmentLoop_unfold [OF lt] Suc.IH [OF k] by simp
qed

lemma divideFileIntoSegments_length:
  "threadCount \<noteq> 0 \<Longrightarrow>
     \<exists>segs. divideFileIntoSegments fileSize threadCount = Inr segs \<and> length segs = nat threadCount"
  by (simp add: divideFileIntoSegments_def Let_def segmentLoop_length)

lemma segmentLoop_nth_end:
  assumes f: "0 \<le> f" "f \<le> maxPlannedSize"
    and U: "f \<le> U * oneMB" "U * oneMB < f + oneMB"
    and q: "0 \<le> q"
  shows "nat (n - i) = k \<Longrightarrow> i \<le> n \<Longrightarrow> 0 \<le> c \<Longrightarrow> 0 \<le> r \<Longrightarrow> r \<le> n - i \<Longrightarrow>
         c + (n - i) * q + r = U \<Longrightarrow> j < k \<Longrightarrow>
         snd (segmentLoop f n q i (min (c * oneMB) f) r [] ! j) =
           min ((c + (int j + 1) * q + min (int j + 1) r) * oneMB) f"
proof (induction k arbitrary: i c r j)
  case 0
  then show ?case by simp
next
  case (Suc k)
  then have lt: "i < n" and k: "nat (n - (i + 1)) = k" by simp_all
  define c' where "c' = c + q + (if 0 < r then 1 else 0)"
  define r' where "r' = (if 0 < r then r - 1 else r)"
  define t where "t = (n - (i + 1)) * q"
  have t: "0 \<le> t" using lt q by (simp add: t_def)
  have "(n - i) * q = t + q" by (simp add: t_def algebra_simps)
  with Suc.prems have sum: "c + (t + q) + r = U" by simp
  have c'U: "c + q + (if 0 < r then 1 else 0) \<le> U"
    using sum t Suc.prems(3,4) by (simp split: if_splits)
  have rU: "r < 2 ^ 63"
  proof -
    have "r \<le> U" using sum t q Suc.prems(3) by linarith
    moreover have "U < 2 ^ 63" using U f by (simp add: oneMB_def maxPlannedSize_def)
    ultimately show ?thesis by simp
  qed
  have e: "segEnd f q (min (c * oneMB) f) r = min (c' * oneMB) f"
    unfolding c'_def by (rule segEnd_nowrap [OF f U Suc.prems(3) q Suc.prems(4) c'U])
  have r: "segRem r = r'"
    unfolding r'_def using Suc.prems rU by (intro segRem_nowrap) simp_all
  show ?case
  proof (cases j)
    case 0
    have "c + (int 0 + 1) * q + min (int 0 + 1) r = c'"
      using Suc.prems(4) by (simp add: c'_def min_def)
    then show ?thesis unfolding segmentLoop_Cons [OF lt] e r 0 by simp
  next
    case (Suc j')
    have IH: "snd (segmentLoop f n q (i + 1) (min (c' * oneMB) f) r' [] ! j') =
        min ((c' + (int j' + 1) * q + min (int j' + 1) r') * oneMB) f"
    proof (rule Suc.IH [OF k])
      show "i + 1 \<le> n" using lt by simp
      show "0 \<le> c'" using Suc.prems q by (simp add: c'_def)
      show "0 \<le> r'" using Suc.prems by (simp add: r'_def)
      show "r' \<le> n - (i + 1)" using Suc.prems lt by (simp add: r'_def)
      show "c' + (n - (i + 1)) * q + r' = U"
        using sum Suc.prems(4) by (simp add: c'_def r'_def t_def)
      show "j' < k" using Suc.prems Suc by simp
    qed
    have "c' + (int j' + 1) * q + min (int j' + 1) r' =
        c + (int (Suc j') + 1) * q + min (int (Suc j') + 1) r"
      using Suc.prems(4) by (simp add: c'_def r'_def min_def algebra_simps)
    then show ?thesis unfolding segmentLoop_Cons [OF lt] e r Suc using IH by simp
  qed
qed

lemma divideFileIntoSegments_nth_end:
  assumes f: "0 \<le> fileSize" "fileSize \<le> maxPlannedSize" and n: "1 \<le> threadCount"
    and res: "divideFileIntoSegments fileSize threadCount = Inr segs"
    and j: "j < length segs"
  shows "snd (segs ! j) =
     min (((int j + 1) * (((fileSize + oneMB - 1) div oneMB) div threadCount) +
           min (int j + 1) (((fileSize + oneMB - 1) div oneMB) mod threadCount)) * oneMB) fileSize"
proof -
  define U where "U = (fileSize + oneMB - 1) div oneMB"
  define q where "q = U div threadCount"
  define r where "r = U mod threadCount"
  have U: "fileSize \<le> U * oneMB" "U * oneMB < fileSize + oneMB" "0 \<le> U"
    unfolding U_def using fileSizeMB_bounds [OF f(1)] by simp_all
  have U63: "U < 2 ^ 63" using U f by (simp add: oneMB_def maxPlannedSize_def)
  have q: "quo64 U threadCount = q" unfolding q_def using U U63 n by (intro quo64_nonneg) simp_all
  have r: "rem64 U threadCount = r" unfolding r_def using U U63 n by (intro rem64_nonneg) simp_all
  have q0: "0 \<le> q" unfolding q_def using U n by (simp add: pos_imp_zdiv_nonneg_iff)
  have r0: "0 \<le> r" "r \<le> threadCount - 0" unfolding r_def using n
    by (simp_all add: less_imp_le)
  have sum: "0 + (threadCount - 0) * q + r = U" by (simp add: q_def r_def)
  have eq: "divideFileIntoSegments fileSize threadCount =
          Inr (segmentLoop fileSize threadCount q 0 (min (0 * oneMB) fileSize) r [])"
    using n f(1) by (simp add: divideFileIntoSegments_def fileSizeMB_nowrap [OF f] U_def [symmetric] q r Let_def)
  have n0: "(0::int) \<le> threadCount" using n by simp
  have len: "length segs = nat (threadCount - 0)"
    using segmentLoop_inv [OF f U(1,2) q0 refl n0 order_refl r0 sum] res unfolding eq by auto
  from j len have jk: "j < nat (threadCount - 0)" by simp
  from segmentLoop_nth_end [OF f U(1,2) q0 refl n0 order_refl r0 sum jk] res
  show ?thesis unfolding eq U_def [symmetric] q_def [symmetric] r_def [symmetric] by simp
qed

lemma units_before_end:
  assumes n: "1 \<le> (n::int)" and U: "0 \<le> U" and j: "0 \<le> j" "j < n"
  shows "j + 1 < min n U \<Longrightarrow> (j + 1) * (U div n) + min (j + 1) (U mod n) < U"
    and "min n U \<le> j + 1 \<Longrightarrow> U \<le> (j + 1) * (U div n) + min (j + 1) (U mod n)"
proof -
  define q where "q = U div n"
  define r where "r = U mod n"
  have sum: "U = n * q + r" by (simp add: q_def r_def)
  have r: "0 \<le> r" "r < n" unfolding r_def using n by simp_all
  have q0: "0 \<le> q" unfolding q_def using U n by (simp add: pos_imp_zdiv_nonneg_iff)
  show "(j + 1) * (U div n) + min (j + 1) (U mod n) < U" if lt: "j + 1 < min n U"
  proof (cases "q = 0")
    case True
    with sum lt r show ?thesis unfolding q_def [symmetric] r_def [symmetric] by simp
  next
    case False
    with q0 have q1: "1 \<le> q" by simp
    from lt have "1 \<le> n - (j + 1)" by simp
    from mult_right_mono [OF this q0] have "q \<le> (n - (j + 1)) * q" by simp
    then have "(j + 1) * q + q \<le> n * q" by (simp add: algebra_simps)
    moreover have "min (j + 1) r \<le> r" by simp
    ultimately have "(j + 1) * q + min (j + 1) r + q \<le> n * q + r" by linarith
    with q1 sum show ?thesis unfolding q_def [symmetric] r_def [symmetric] by linarith
  qed
  show "U \<le> (j + 1) * (U div n) + min (j + 1) (U mod n)" if ge: "min n U \<le> j + 1"
  proof (cases "q = 0")
    case True
    with sum r have "U = r" "U < n" by simp_all
    with ge True show ?thesis unfolding q_def [symmetric] r_def [symmetric] by simp
  next
    case False
    with q0 have q1: "1 \<le> q" by simp
    from mult_left_mono [OF q1, of n] n have "n \<le> n * q" by simp
    with sum r have "n \<le> U" by linarith
    with ge j have jn: "j + 1 = n" by simp
    show ?thesis unfolding q_def [symmetric] r_def [symmetric] jn using sum r by simp
  qed
qed

section \<open>The planner: the claims\<close>

lemma chained_partition:
  assumes "chained 0 segs fileSize" "segs \<noteq> []"
  shows "segmentsPartition segs fileSize"
proof -
  have ord: "snd (segs ! i) \<le> fst (segs ! j)" if "i < j" "j < length segs" for i j
    using chained_ordered [OF assms(1) that] .
  have le: "fst (segs ! i) \<le> snd (segs ! i)" if "i < length segs" for i
    using chained_bounds [OF assms(1), of "segs ! i"] that by simp
  have disj: "{fst (segs ! i) ..< snd (segs ! i)} \<inter> {fst (segs ! j) ..< snd (segs ! j)} = {}"
    if "i < j" "j < length segs" for i j
    using ord [OF that] by auto
  have adj: "fst (segs ! Suc i) = snd (segs ! i)" if "Suc i < length segs" for i
    using chained_adjacent [OF assms(1) that] .
  have ends: "fst (hd segs) = 0" "snd (last segs) = fileSize"
    using chained_hd_last [OF assms] by simp_all
  have cover: "(\<Union>p \<in> set segs. {fst p ..< snd p}) = {0 ..< fileSize}"
    using chained_union [OF assms(1)] .
  show ?thesis
    unfolding segmentsPartition_def
  proof (intro conjI allI impI)
    show "segs \<noteq> []" by (fact assms(2))
    show "fst (hd segs) = 0" by (fact ends(1))
    show "snd (last segs) = fileSize" by (fact ends(2))
    show "fst (segs ! Suc i) = snd (segs ! i)" if "Suc i < length segs" for i
      using adj that .
    show "fst (segs ! i) \<le> snd (segs ! i)" if "i < length segs" for i
      using le that .
    show "snd (segs ! i) \<le> fst (segs ! j)" if "i < j \<and> j < length segs" for i j
      using ord that by blast
    show "{fst (segs ! i) ..< snd (segs ! i)} \<inter> {fst (segs ! j) ..< snd (segs ! j)} = {}"
      if "i < j \<and> j < length segs" for i j
      using disj that by blast
    show "(\<Union>p \<in> set segs. {fst p ..< snd p}) = {0 ..< fileSize}" by (fact cover)
  qed
qed

text \<open>
  Up to \<open>2^63 - 2^20\<close> bytes, the file sizes for which rounding up to whole MiB stays
  within \<^verbatim>\<open>int64\<close>, and for every thread count of at least 1, the planner returns
  segments that are ordered by index, pairwise non-overlapping and contiguous (the first
  starts at 0, each starts where the previous one ends, the last ends at the file size),
  and whose union is exactly the byte range from 0 to the file size.
\<close>

lemma divideFileIntoSegments_partition:
  assumes "0 \<le> fileSize" "fileSize \<le> maxPlannedSize" "1 \<le> threadCount"
  shows "\<exists>segs. divideFileIntoSegments fileSize threadCount = Inr segs \<and>
           segmentsPartition segs fileSize"
proof -
  from divideFileIntoSegments_plan [OF assms] obtain segs where
    segs: "divideFileIntoSegments fileSize threadCount = Inr segs"
      "length segs = nat threadCount" "chained 0 segs fileSize"
    by blast
  from segs(2) assms(3) have "segs \<noteq> []" by auto
  with segs show ?thesis using chained_partition by blast
qed

text \<open>
  Claim C2.  The segments of every plan are to partition the bytes of the file.  For a
  file of \<open>2^63 - 1\<close> bytes and one thread they do not: the sum in
  \<^verbatim>\<open>(fileSize + oneMB - 1) / oneMB\<close>, which the source comments with
  \<^verbatim>\<open>Round up to the nearest MB\<close>, wraps around to a negative number, and the only
  segment ends at \<open>2^20 - 2^63\<close>: not at the file size, and before its own start.
\<close>

theorem divideFileIntoSegments_overflow_no_partition:
  "divideFileIntoSegments (2 ^ 63 - 1) 1 = Inr [(0, 2 ^ 20 - 2 ^ 63)] \<and>
   snd (last [(0 :: int, 2 ^ 20 - 2 ^ 63 :: int)]) \<noteq> 2 ^ 63 - 1 \<and>
   snd (last [(0 :: int, 2 ^ 20 - 2 ^ 63 :: int)]) < fst (last [(0 :: int, 2 ^ 20 - 2 ^ 63 :: int)])"
proof -
  have "divideFileIntoSegments (2 ^ 63 - 1) 1 = Inr [(0, 2 ^ 20 - 2 ^ 63)]"
    by code_simp
  then show ?thesis by simp
qed

text \<open>
  Claim C6, as amended.  For a file of size 0 and every thread count of at least 1 the
  planner does not panic and returns one empty segment \<open>(0, 0)\<close> for each thread: a
  single empty segment only when the thread count is 1.
\<close>

theorem divideFileIntoSegments_empty_file:
  assumes "1 \<le> threadCount"
  shows "divideFileIntoSegments 0 threadCount = Inr (replicate (nat threadCount) (0, 0))"
proof -
  have "(0::int) \<le> maxPlannedSize" by (simp add: maxPlannedSize_def)
  from divideFileIntoSegments_plan [OF order_refl this assms] obtain segs where
    segs: "divideFileIntoSegments 0 threadCount = Inr segs"
      "length segs = nat threadCount" "chained 0 segs 0"
    by blast
  have "p = (0, 0)" if "p \<in> set segs" for p
    using chained_bounds [OF segs(3) that] by (cases p) simp
  then have "segs = replicate (length segs) (0, 0)"
    by (intro replicate_eqI) simp_all
  with segs show ?thesis by simp
qed

theorem divideFileIntoSegments_empty_file_witness:
  "(1::int) \<le> 2 \<and> divideFileIntoSegments 0 2 = Inr (replicate (nat 2) (0, 0))"
  using divideFileIntoSegments_empty_file [of 2] by simp

text \<open>Claim C6 as stated fails for two threads: the plan is neither a single segment nor
  empty.\<close>

theorem divideFileIntoSegments_empty_file_counterexample:
  "divideFileIntoSegments 0 2 = Inr [(0, 0), (0, 0)] \<and>
   divideFileIntoSegments 0 2 \<noteq> Inr [(0, 0)] \<and>
   divideFileIntoSegments 0 2 \<noteq> Inr []"
proof -
  have "divideFileIntoSegments 0 2 = Inr [(0, 0), (0, 0)]" by code_simp
  then show ?thesis by simp
qed

text \<open>
  Claim C7, as amended.  Let \<open>units\<close> be the file size in MiB, rounded up.  For every file
  size from 0 to \<open>2^63 - 2^20\<close> and every thread count of at least 1, the end of segment
  \<open>j\<close> (counted from 0) is a multiple of 1 MiB when \<open>j + 1\<close> is less than both the thread
  count and \<open>units\<close>, and is the file size otherwise.  So every end except possibly the
  ends of the last two segments is a multiple of 1 MiB whenever there are at most
  \<open>units + 1\<close> threads or the file size is a multiple of 1 MiB.
\<close>

theorem divideFileIntoSegments_ends_aligned:
  assumes "0 \<le> fileSize" "fileSize \<le> maxPlannedSize" "1 \<le> threadCount"
  shows "\<exists>segs. divideFileIntoSegments fileSize threadCount = Inr segs \<and>
           length segs = nat threadCount \<and>
           (\<forall>j. int j + 1 < min threadCount ((fileSize + oneMB - 1) div oneMB) \<longrightarrow>
                oneMB dvd snd (segs ! j)) \<and>
           (\<forall>j. j < length segs \<and> min threadCount ((fileSize + oneMB - 1) div oneMB) \<le> int j + 1 \<longrightarrow>
                snd (segs ! j) = fileSize) \<and>
           (threadCount \<le> (fileSize + oneMB - 1) div oneMB + 1 \<or> oneMB dvd fileSize \<longrightarrow>
              (\<forall>j. Suc (Suc j) < length segs \<longrightarrow> oneMB dvd snd (segs ! j)))"
proof -
  define U where "U = (fileSize + oneMB - 1) div oneMB"
  from divideFileIntoSegments_plan [OF assms] obtain segs where
    segs: "divideFileIntoSegments fileSize threadCount = Inr segs"
    and len: "length segs = nat threadCount"
    by blast
  have U: "fileSize \<le> U * oneMB" "U * oneMB < fileSize + oneMB" "0 \<le> U"
    unfolding U_def using fileSizeMB_bounds [OF assms(1)] by simp_all
  define C where "C = (\<lambda>j. (int j + 1) * (U div threadCount) + min (int j + 1) (U mod threadCount))"
  have nth: "snd (segs ! j) = min (C j * oneMB) fileSize" if "j < length segs" for j
    using divideFileIntoSegments_nth_end [OF assms segs that] by (simp add: C_def U_def)
  have inner: "oneMB dvd snd (segs ! j)" if lt: "int j + 1 < min threadCount U" for j
  proof -
    from lt have "int j < threadCount" by simp
    with len have j: "j < length segs" by linarith
    then have jn: "int j < threadCount" using len by simp
    have "C j < U"
      unfolding C_def using units_before_end(1) [OF assms(3) U(3) _ jn lt] by simp
    then have "C j + 1 \<le> U" by simp
    then have "(C j + 1) * oneMB \<le> U * oneMB" by (simp add: oneMB_def)
    with U(2) have "C j * oneMB \<le> fileSize" by (simp add: algebra_simps)
    then show ?thesis unfolding nth [OF j] by (simp add: min_def)
  qed
  have outer: "snd (segs ! j) = fileSize"
    if j: "j < length segs" and ge: "min threadCount U \<le> int j + 1" for j
  proof -
    from j have jn: "int j < threadCount" using len by simp
    have "U \<le> C j"
      unfolding C_def using units_before_end(2) [OF assms(3) U(3) _ jn ge] by simp
    then have "U * oneMB \<le> C j * oneMB" by (simp add: oneMB_def)
    with U(1) show ?thesis unfolding nth [OF j] by (simp add: min_def)
  qed
  have stated: "oneMB dvd snd (segs ! j)"
    if c: "threadCount \<le> U + 1 \<or> oneMB dvd fileSize" and j: "Suc (Suc j) < length segs" for j
  proof (cases "int j + 1 < min threadCount U")
    case True
    then show ?thesis by (rule inner)
  next
    case False
    from j have j': "j < length segs" by simp
    from False have "min threadCount U \<le> int j + 1" by linarith
    from outer [OF j' this] have e: "snd (segs ! j) = fileSize" .
    from j len have "int j + 2 < threadCount" by simp
    with False have "\<not> threadCount \<le> U + 1" by linarith
    with c e show ?thesis by simp
  qed
  from segs len inner outer stated show ?thesis unfolding U_def by blast
qed

theorem divideFileIntoSegments_ends_aligned_witness:
  "(0::int) \<le> 1572864 \<and> 1572864 \<le> maxPlannedSize \<and> (1::int) \<le> 3 \<and>
   (\<exists>segs. divideFileIntoSegments 1572864 3 = Inr segs \<and>
      length segs = nat 3 \<and>
      (\<forall>j. int j + 1 < min 3 ((1572864 + oneMB - 1) div oneMB) \<longrightarrow> oneMB dvd snd (segs ! j)) \<and>
      (\<forall>j. j < length segs \<and> min 3 ((1572864 + oneMB - 1) div oneMB) \<le> int j + 1 \<longrightarrow>
           snd (segs ! j) = 1572864) \<and>
      (3 \<le> (1572864 + oneMB - 1) div oneMB + 1 \<or> oneMB dvd 1572864 \<longrightarrow>
         (\<forall>j. Suc (Suc j) < length segs \<longrightarrow> oneMB dvd snd (segs ! j))))"
  using divideFileIntoSegments_ends_aligned [of 1572864 3]
  by (simp add: maxPlannedSize_def)

text \<open>
  Claim C7 as stated fails for a file of one byte and three threads: the first segment is
  not one of the last two, and its end, 1, is not a multiple of 1 MiB.
\<close>

theorem divideFileIntoSegments_ends_aligned_counterexample:
  "divideFileIntoSegments 1 3 = Inr [(0, 1), (1, 1), (1, 1)] \<and>
   \<not> oneMB dvd snd ([(0, 1), (1, 1), (1, 1)] ! 0)"
proof
  show "divideFileIntoSegments 1 3 = Inr [(0, 1), (1, 1), (1, 1)]"
    by code_simp
  show "\<not> oneMB dvd snd ([(0, 1), (1, 1), (1, 1)] ! 0)"
    by (simp add: oneMB_def)
qed

text \<open>
  For every file size and every thread count of at least 1 the planner returns exactly
  as many segments as threads, so that the orchestrator's \<^verbatim>\<open>offset[i]\<close> is in bounds
  for every \<open>i\<close> from 0 below the thread count; and for a file size from 0 to
  \<open>2^63 - 2^20\<close> every segment satisfies \<open>0 \<le> start \<le> end \<le> fileSize\<close>.
\<close>

lemma divideFileIntoSegments_count_and_bounds:
  assumes "1 \<le> threadCount"
  shows "\<exists>segs. divideFileIntoSegments fileSize threadCount = Inr segs \<and>
           length segs = nat threadCount \<and>
           (\<forall>i. 0 \<le> i \<and> i < threadCount \<longrightarrow> nat i < length segs) \<and>
           (0 \<le> fileSize \<and> fileSize \<le> maxPlannedSize \<longrightarrow>
              (\<forall>p \<in> set segs. 0 \<le> fst p \<and> fst p \<le> snd p \<and> snd p \<le> fileSize))"
proof -
  from assms have "threadCount \<noteq> 0" by simp
  from divideFileIntoSegments_length [OF this, of fileSize] obtain segs where
    segs: "divideFileIntoSegments fileSize threadCount = Inr segs" "length segs = nat threadCount"
    by blast
  have idx: "\<forall>i. 0 \<le> i \<and> i < threadCount \<longrightarrow> nat i < length segs"
    using segs(2) by auto
  have "\<forall>p \<in> set segs. 0 \<le> fst p \<and> fst p \<le> snd p \<and> snd p \<le> fileSize"
    if f: "0 \<le> fileSize" "fileSize \<le> maxPlannedSize"
  proof -
    from divideFileIntoSegments_plan [OF f assms] segs(1)
    have "chained 0 segs fileSize" by auto
    then show ?thesis using chained_bounds by blast
  qed
  with segs idx show ?thesis by blast
qed

text \<open>
  Claim C10.  Every segment of a plan is to satisfy \<open>0 \<le> start \<le> end \<le> fileSize\<close>.  For a
  file of \<open>2^63 - 2^20 + 1\<close> bytes and two threads the planner returns two segments, as
  many as threads, but after the wrap-around of \<^verbatim>\<open>fileSize + oneMB - 1\<close> both end before
  they start, at negative offsets.
\<close>

theorem divideFileIntoSegments_overflow_bounds:
  "divideFileIntoSegments (2 ^ 63 - 2 ^ 20 + 1) 2 = Inr [(0, - (2 ^ 62)), (- (2 ^ 62), - (2 ^ 63))] \<and>
   \<not> (fst (0::int, - (2 ^ 62) :: int) \<le> snd (0::int, - (2 ^ 62) :: int))"
proof
  show "divideFileIntoSegments (2 ^ 63 - 2 ^ 20 + 1) 2 =
          Inr [(0, - (2 ^ 62)), (- (2 ^ 62), - (2 ^ 63))]"
    by code_simp
  show "\<not> (fst (0::int, - (2 ^ 62) :: int) \<le> snd (0::int, - (2 ^ 62) :: int))"
    by simp
qed

section \<open>Path resolution in the examples\<close>

lemma stripDotSlash_plain: "take 2 path \<noteq> ''./'' \<Longrightarrow> stripDotSlash path = path"
  by (subst stripDotSlash.simps) simp

lemma stripDotSlash_dot: "stripDotSlash (''./'' @ path) = stripDotSlash path"
  by (subst stripDotSlash.simps) simp

lemma stripDotSlash_in [simp]: "stripDotSlash ''in'' = ''in''"
  by (rule stripDotSlash_plain) simp

lemma stripDotSlash_out [simp]: "stripDotSlash ''out'' = ''out''"
  by (rule stripDotSlash_plain) simp


section \<open>The worker: the read loop\<close>

lemma aligned_step: "oneMB dvd (x::int) \<Longrightarrow> oneMB dvd y \<Longrightarrow> x < y \<Longrightarrow> x + oneMB \<le> y"
  unfolding oneMB_def by (elim dvdE) simp

lemma chunksOf_Nil [simp]: "chunksOf n [] = []"
  by (simp add: chunksOf.simps)

lemma chunksOf_single: "xs \<noteq> [] \<Longrightarrow> length xs \<le> n \<Longrightarrow> chunksOf n xs = [xs]"
  by (subst chunksOf.simps) (cases xs; cases n; simp)

lemma chunksOf_Cons:
  "0 < n \<Longrightarrow> xs \<noteq> [] \<Longrightarrow> chunksOf n xs = take n xs # chunksOf n (drop n xs)"
  by (subst chunksOf.simps) simp

lemma concat_chunksOf: "0 < n \<Longrightarrow> concat (chunksOf n xs) = xs"
proof (induction n xs rule: chunksOf.induct)
  case (1 n xs)
  show ?case
  proof (cases "xs = []")
    case True
    then show ?thesis by simp
  next
    case False
    with 1 show ?thesis by (simp add: chunksOf_Cons)
  qed
qed

lemma chunksOf_nonempty: "c \<in> set (chunksOf n xs) \<Longrightarrow> c \<noteq> []"
proof (induction n xs rule: chunksOf.induct)
  case (1 n xs)
  show ?case
  proof (cases "n = 0 \<or> xs = []")
    case True
    with "1.prems" show ?thesis by (simp add: chunksOf.simps)
  next
    case False
    with "1.prems" have "c = take n xs \<or> c \<in> set (chunksOf n (drop n xs))"
      by (simp add: chunksOf_Cons)
    with 1 False show ?thesis by auto
  qed
qed

lemma read_step:
  assumes P: "inSegment content e pos"
    and data: "data = take (nat oneMB) (drop pos content)"
    and n: "data \<noteq> []"
  shows "int (pos + length data) \<le> e"
    and "int (pos + length data) < e \<Longrightarrow>
         length data = nat oneMB \<and> inSegment content e (pos + length data)"
proof -
  have nmin: "length data = min (nat oneMB) (length content - pos)" by (simp add: data)
  from n have lt: "pos < length content" by (auto simp: data)
  with P have al: "oneMB dvd int pos" and pe: "int pos < e" and el: "e \<le> int (length content)"
    by (auto simp: inSegment_def)
  show le: "int (pos + length data) \<le> e"
  proof (cases "oneMB dvd e")
    case True
    from aligned_step [OF al True pe] el show ?thesis
      unfolding nmin by (simp add: oneMB_def)
  next
    case False
    with P have "e = int (length content)" by (simp add: inSegment_def)
    then show ?thesis unfolding nmin using lt by simp
  qed
  assume cur: "int (pos + length data) < e"
  with el have "pos + length data < length content" by simp
  then have full: "length data = nat oneMB" unfolding nmin by (simp add: min_def split: if_splits)
  have "oneMB dvd int (pos + length data)" unfolding full using al by (simp add: oneMB_def)
  with cur el P have "inSegment content e (pos + length data)"
    by (simp add: inSegment_def)
  with full show "length data = nat oneMB \<and> inSegment content e (pos + length data)" ..
qed

lemma readLoop_unfold:
  "readLoop encode flt inputFile outputFile content endOffset k pos out =
     (let data = take (nat oneMB) (drop pos content) in
      if flt = ReadFails k then (Err (ReadInputFailed inputFile), out)
      else if data = [] then (Ok (), out)
      else if flt = WriteFails k then (Err (WritePartFailed outputFile), out)
      else if flt = SeekFails k then (Err (GetOffsetFailed inputFile), out @ encode data)
      else if int (pos + length data) = endOffset then (Ok (), out @ encode data)
      else if int (pos + length data) > endOffset then (Panic ReadOverEndOffset, out @ encode data)
      else readLoop encode flt inputFile outputFile content endOffset (Suc k) (pos + length data) (out @ encode data))"
  by (subst readLoop.simps) (simp add: Let_def)

lemma readLoop_no_panic:
  "inSegment content e pos \<Longrightarrow> fst (readLoop encode flt inputFile outputFile content e k pos out) \<noteq> Panic p"
proof (induction "length content - pos" arbitrary: pos k out rule: less_induct)
  case less
  define data where "data = take (nat oneMB) (drop pos content)"
  note unfold = readLoop_unfold [of encode flt inputFile outputFile content e k pos out,
      unfolded Let_def, folded data_def]
  show ?case
  proof (cases "flt = ReadFails k \<or> data = [] \<or> flt = WriteFails k \<or> flt = SeekFails k")
    case True
    then show ?thesis unfolding unfold by auto
  next
    case False
    then have n: "data \<noteq> []" by simp
    note step = read_step [OF less.prems data_def n]
    show ?thesis
    proof (cases "int (pos + length data) = e")
      case True
      with False show ?thesis unfolding unfold by simp
    next
      case ne: False
      with step(1) have lt: "int (pos + length data) < e" by simp
      from step(2) [OF lt] have P': "inSegment content e (pos + length data)" ..
      from n have "pos < length content" by (auto simp: data_def)
      moreover from n have "0 < length data" by simp
      ultimately have "length content - (pos + length data) < length content - pos" by linarith
      from less.hyps [OF this P']
      have IH: "fst (readLoop encode flt inputFile outputFile content e (Suc k) (pos + length data)
                  (out @ encode data)) \<noteq> Panic p" .
      show ?thesis unfolding unfold using False ne lt IH by simp
    qed
  qed
qed

lemma readLoop_reads_segment:
  "inSegment content e pos \<Longrightarrow>
   readLoop encode NoFault inputFile outputFile content e k pos out =
     (Ok (), out @ concat (map encode (chunksOf (nat oneMB) (take (nat e - pos) (drop pos content)))))"
proof (induction "length content - pos" arbitrary: pos k out rule: less_induct)
  case less
  define data where "data = take (nat oneMB) (drop pos content)"
  note unfold = readLoop_unfold [of encode NoFault inputFile outputFile content e k pos out,
      unfolded Let_def, folded data_def]
  have M: "0 < nat oneMB" by (simp add: oneMB_def)
  show ?case
  proof (cases "data = []")
    case True
    with M have "length content \<le> pos" by (simp add: data_def)
    then have "chunksOf (nat oneMB) (take (nat e - pos) (drop pos content)) = []" by simp
    then show ?thesis unfolding unfold using True by simp
  next
    case n: False
    note step = read_step [OF less.prems data_def n]
    have len: "length data \<le> nat oneMB" by (simp add: data_def)
    show ?thesis
    proof (cases "int (pos + length data) = e")
      case True
      then have "nat e - pos = length data" by (simp flip: True)
      then have "take (nat e - pos) (drop pos content) = data"
        by (simp add: data_def min_def)
      moreover have "chunksOf (nat oneMB) data = [data]"
        using n len by (intro chunksOf_single)
      ultimately have "chunksOf (nat oneMB) (take (nat e - pos) (drop pos content)) = [data]"
        by simp
      then show ?thesis unfolding unfold using n True by simp
    next
      case ne: False
      with step(1) have lt: "int (pos + length data) < e" by simp
      from step(2) [OF lt] have full: "length data = nat oneMB"
        and P': "inSegment content e (pos + length data)" by blast+
      from n have "pos < length content" by (auto simp: data_def)
      moreover from n have "0 < length data" by simp
      ultimately have "length content - (pos + length data) < length content - pos" by linarith
      from less.hyps [OF this P']
      have IH: "readLoop encode NoFault inputFile outputFile content e (Suc k) (pos + length data)
                  (out @ encode data) =
                (Ok (), (out @ encode data) @ concat (map encode (chunksOf (nat oneMB)
                   (take (nat e - (pos + length data)) (drop (pos + length data) content)))))" .
      define xs where "xs = take (nat e - pos) (drop pos content)"
      have big: "nat oneMB \<le> nat e - pos" using lt full by linarith
      have "xs \<noteq> []" using n big M by (auto simp: xs_def data_def)
      moreover have "take (nat oneMB) xs = data" using big by (simp add: xs_def data_def min_def)
      moreover have "drop (nat oneMB) xs =
          take (nat e - (pos + length data)) (drop (pos + length data) content)"
        unfolding full by (simp add: xs_def drop_take add.commute)
      ultimately have "chunksOf (nat oneMB) xs = data #
          chunksOf (nat oneMB) (take (nat e - (pos + length data))
             (drop (pos + length data) content))"
        using chunksOf_Cons [OF M, of xs] by simp
      then show ?thesis unfolding unfold IH xs_def [symmetric] using n ne lt by simp
    qed
  qed
qed

section \<open>The worker: the claims\<close>

lemma planned_segment_inSegment:
  assumes f: "int (length content) \<le> maxPlannedSize" and n: "1 \<le> threadCount"
    and segs: "divideFileIntoSegments (int (length content)) threadCount = Inr segs"
    and seg: "seg \<in> set segs"
  shows "inSegment content (snd seg) (nat (fst seg))"
proof -
  have f0: "0 \<le> int (length content)" by simp
  from divideFileIntoSegments_plan [OF f0 f n] segs
  have ch: "chained 0 segs (int (length content))"
    and al: "\<forall>p \<in> set segs. (oneMB dvd fst p \<or> fst p = int (length content)) \<and>
               (oneMB dvd snd p \<or> snd p = int (length content)) \<and>
               (fst p = snd p \<longrightarrow> fst p = int (length content))"
    by auto
  from chained_bounds [OF ch seg]
  have b: "0 \<le> fst seg" "fst seg \<le> snd seg" "snd seg \<le> int (length content)" by simp_all
  from al seg have a: "oneMB dvd fst seg \<or> fst seg = int (length content)"
    "oneMB dvd snd seg \<or> snd seg = int (length content)"
    "fst seg = snd seg \<longrightarrow> fst seg = int (length content)" by blast+
  have s: "int (nat (fst seg)) = fst seg" using b by simp
  have "fst seg < snd seg \<or> nat (fst seg) = length content"
    using a(3) b by linarith
  moreover have "oneMB dvd int (nat (fst seg)) \<or> nat (fst seg) = length content"
    using a(1) b unfolding s by auto
  ultimately show ?thesis
    unfolding inSegment_def s using b a(2) by blast
qed

lemma compressPart_NoFault:
  assumes "fs (resolve inputFile) = Some content"
    and "resolve (partName inputFile i) \<noteq> resolve inputFile"
  shows "compressPart resolve encodeAll NoFault fs inputFile i seg level =
     (case readLoop (encodeAll level) NoFault inputFile (partName inputFile i) content (snd seg) 0
             (nat (fst seg)) [] of
        (r, written) \<Rightarrow>
          (case r of Ok u \<Rightarrow> Ok (partName inputFile i) | Err e \<Rightarrow> Err e | Panic p \<Rightarrow> Panic p,
           fs(resolve (partName inputFile i) \<mapsto> written)))"
  using assms by (simp add: compressPart_def Let_def split: prod.splits)

lemma compressPart_reads_segment:
  assumes "fs (resolve inputFile) = Some content"
    and "resolve (partName inputFile i) \<noteq> resolve inputFile"
    and "inSegment content (snd seg) (nat (fst seg))"
  shows "compressPart resolve encodeAll NoFault fs inputFile i seg level =
     (Ok (partName inputFile i),
      fs(resolve (partName inputFile i) \<mapsto>
           concat (map (encodeAll level) (chunksOf (nat oneMB) (segmentBytes content seg)))))"
  unfolding compressPart_NoFault [of fs resolve inputFile content, OF assms(1,2)]
    readLoop_reads_segment [OF assms(3)]
  by (simp add: segmentBytes_def)

lemma readLoop_empty_no_panic:
  "fst (readLoop encode flt inputFile outputFile [] e k pos out) \<noteq> Panic p"
  by (subst readLoop_unfold) simp

lemma compressPart_no_panic:
  assumes "\<And>content. fs (resolve inputFile) = Some content \<Longrightarrow>
             inSegment content (snd seg) (nat (fst seg))"
  shows "fst (compressPart resolve encodeAll flt fs inputFile i seg level) \<noteq> Panic p"
proof (cases "fs (resolve inputFile)")
  case None
  then show ?thesis by (simp add: compressPart_def)
next
  case (Some content)
  define c where
    "c = (if resolve (partName inputFile i) = resolve inputFile then [] else content)"
  have "fst (readLoop (encodeAll level) flt inputFile (partName inputFile i) c (snd seg) 0
          (nat (fst seg)) []) \<noteq> Panic p"
  proof (cases "resolve (partName inputFile i) = resolve inputFile")
    case True
    then show ?thesis unfolding c_def by (simp add: readLoop_empty_no_panic)
  next
    case False
    with readLoop_no_panic [OF assms [OF Some]] show ?thesis unfolding c_def by simp
  qed
  then show ?thesis using Some
    by (auto simp: compressPart_def Let_def c_def split: prod.splits outcome.splits)
qed

lemma readLoop_short_input:
  "int (length content) < e \<Longrightarrow>
   fst (readLoop encode NoFault inputFile outputFile content e k pos out) = Ok ()"
proof (induction "length content - pos" arbitrary: pos k out rule: less_induct)
  case less
  define data where "data = take (nat oneMB) (drop pos content)"
  note unfold = readLoop_unfold [of encode NoFault inputFile outputFile content e k pos out,
      unfolded Let_def, folded data_def]
  show ?case
  proof (cases "data = []")
    case True
    then show ?thesis unfolding unfold by simp
  next
    case n: False
    then have lt: "pos < length content" by (auto simp: data_def)
    have "length data \<le> length content - pos" by (simp add: data_def)
    with lt less.prems have cur: "int (pos + length data) < e" by linarith
    from n have "0 < length data" by simp
    with lt have "length content - (pos + length data) < length content - pos" by linarith
    from less.hyps [OF this less.prems]
    have "fst (readLoop encode NoFault inputFile outputFile content e (Suc k) (pos + length data)
            (out @ encode data)) = Ok ()" .
    then show ?thesis unfolding unfold using n cur by simp
  qed
qed

lemma partName_in_0: "partName ''in'' 0 = ''0-in-output-segment.part0''"
  by code_simp

lemma stripDotSlash_part_0 [simp]:
  "stripDotSlash ''0-in-output-segment.part0'' = ''0-in-output-segment.part0''"
  by (rule stripDotSlash_plain) simp

lemma plan_huge_file:
  "divideFileIntoSegments (int (length (replicate 9223372036854775807 (0::byte)))) 1 =
     Inr [(0, 2 ^ 20 - 2 ^ 63)]"
proof -
  have "int (length (replicate 9223372036854775807 (0::byte))) = 2 ^ 63 - 1" by simp
  moreover have "divideFileIntoSegments (2 ^ 63 - 1) 1 = Inr [(0, 2 ^ 20 - 2 ^ 63)]" by code_simp
  ultimately show ?thesis by (simp only:)
qed

lemma compressPart_huge_file_panics:
  assumes "fs (resolve inputFile) = Some (replicate 9223372036854775807 0)"
    and "resolve (partName inputFile i) \<noteq> resolve inputFile"
  shows "fst (compressPart resolve encodeAll NoFault fs inputFile i (0, 2 ^ 20 - 2 ^ 63) level) =
           Panic ReadOverEndOffset"
proof -
  have "fst (readLoop (encodeAll level) NoFault inputFile (partName inputFile i)
          (replicate 9223372036854775807 0) (2 ^ 20 - 2 ^ 63) 0 0 [])
      = Panic ReadOverEndOffset"
    by (subst readLoop_unfold) (simp add: Let_def oneMB_def)
  then show ?thesis
    using assms
    by (cases "readLoop (encodeAll level) NoFault inputFile (partName inputFile i)
                 (replicate 9223372036854775807 0) (2 ^ 20 - 2 ^ 63) 0 0 []")
       (simp add: compressPart_def Let_def)
qed

text \<open>
  For every file of at most \<open>2^63 - 2^20\<close> bytes and every segment the planner produces
  for its size, a worker on that segment never reaches the panic for reading over the end
  offset, whichever of its calls fail; and when none fails and its part file is not the
  input file, it returns its part file, which then holds one frame for each block of at
  most 1 MiB of exactly the bytes between the segment's start and end.  No read goes past
  the segment's end: a read ends on a MiB boundary at or before it, or at the end of the
  file, which is then the segment's end.
\<close>

lemma compressPart_within_planned_segment:
  assumes "fs (resolve inputFile) = Some content"
    and "int (length content) \<le> maxPlannedSize"
    and "1 \<le> threadCount"
    and "divideFileIntoSegments (int (length content)) threadCount = Inr segs"
    and "seg \<in> set segs"
  shows "fst (compressPart resolve encodeAll flt fs inputFile segmentIndex seg level) \<noteq>
           Panic ReadOverEndOffset"
    and "resolve (partName inputFile segmentIndex) \<noteq> resolve inputFile \<Longrightarrow>
         compressPart resolve encodeAll NoFault fs inputFile segmentIndex seg level =
           (Ok (partName inputFile segmentIndex),
            fs(resolve (partName inputFile segmentIndex) \<mapsto>
                 concat (map (encodeAll level) (chunksOf (nat oneMB) (segmentBytes content seg)))))"
proof -
  have P: "inSegment content (snd seg) (nat (fst seg))"
    using planned_segment_inSegment [OF assms(2-5)] .
  show "fst (compressPart resolve encodeAll flt fs inputFile segmentIndex seg level) \<noteq>
      Panic ReadOverEndOffset"
    using assms(1) P by (intro compressPart_no_panic) simp
  show "compressPart resolve encodeAll NoFault fs inputFile segmentIndex seg level =
           (Ok (partName inputFile segmentIndex),
            fs(resolve (partName inputFile segmentIndex) \<mapsto>
                 concat (map (encodeAll level) (chunksOf (nat oneMB) (segmentBytes content seg)))))"
    if "resolve (partName inputFile segmentIndex) \<noteq> resolve inputFile"
    using compressPart_reads_segment [of fs resolve inputFile content, OF assms(1) that P] .
qed

text \<open>
  Claim C3.  A worker on a segment of the plan is never to reach its panic for reading
  over the end offset.  For a file of \<open>2^63 - 1\<close> bytes and one thread it does: the
  planner's rounding wraps around, its only segment ends at \<open>2^20 - 2^63\<close>, the worker's
  first read returns 1 MiB and moves the offset past that end, and the worker panics with
  \<^verbatim>\<open>I read over the endOffset\<close>.
\<close>

theorem compressPart_overflow_reads_over_end:
  "divideFileIntoSegments (int (length (replicate 9223372036854775807 (0::byte)))) 1 =
     Inr [(0, 2 ^ 20 - 2 ^ 63)] \<and>
   fst (compressPart stripDotSlash toyEncodeAll NoFault [''in'' \<mapsto> replicate 9223372036854775807 0]
          ''in'' 0 (0, 2 ^ 20 - 2 ^ 63) 3) = Panic ReadOverEndOffset"
  using plan_huge_file
    compressPart_huge_file_panics [of "[''in'' \<mapsto> replicate 9223372036854775807 0]" stripDotSlash
      "''in''" 0 toyEncodeAll 3]
  by (simp add: partName_in_0)

text \<open>
  Claim C4, as amended.  For every segment whose end lies beyond the end of the input
  file, so that a read returns zero bytes while the read position is still strictly
  below the segment's end, a worker whose calls all succeed stops at that read and
  completes successfully: it returns the name of its part file and no error.
\<close>

theorem compressPart_short_input_succeeds:
  assumes "fs (resolve inputFile) = Some content" and "int (length content) < snd offset"
  shows "fst (compressPart resolve encodeAll NoFault fs inputFile segmentIndex offset level) =
           Ok (partName inputFile segmentIndex)"
proof -
  define c where
    "c = (if resolve (partName inputFile segmentIndex) = resolve inputFile then [] else content)"
  have "int (length c) < snd offset" using assms(2) by (simp add: c_def)
  then have "fst (readLoop (encodeAll level) NoFault inputFile (partName inputFile segmentIndex) c
      (snd offset) 0 (nat (fst offset)) []) = Ok ()"
    by (rule readLoop_short_input)
  then show ?thesis
    using assms(1)
    by (cases "readLoop (encodeAll level) NoFault inputFile (partName inputFile segmentIndex) c
          (snd offset) 0 (nat (fst offset)) []")
       (simp add: compressPart_def Let_def c_def)
qed

theorem compressPart_short_input_succeeds_witness:
  "[''in'' \<mapsto> [1, 2, 3 :: byte]] (stripDotSlash ''in'') = Some [1, 2, 3] \<and>
   int (length [1, 2, 3 :: byte]) < snd (0 :: int, 5 :: int) \<and>
   fst (compressPart stripDotSlash toyEncodeAll NoFault [''in'' \<mapsto> [1, 2, 3]] ''in'' 0 (0, 5) 3) =
     Ok (partName ''in'' 0)"
  using compressPart_short_input_succeeds [of "[''in'' \<mapsto> [1, 2, 3]]" stripDotSlash "''in''"
      "[1, 2, 3]" "(0, 5)" toyEncodeAll 0 3]
  by simp

text \<open>
  Claim C4 as stated fails for a file of three bytes and the segment from 0 to 5: the
  second read returns zero bytes at offset 3, below the end 5, and the worker returns its
  part file name, not an error.
\<close>

theorem compressPart_short_input_counterexample:
  "compressPart stripDotSlash toyEncodeAll NoFault [''in'' \<mapsto> [1, 2, 3]] ''in'' 0 (0, 5) 3 =
     (Ok ''0-in-output-segment.part0'',
      [''in'' \<mapsto> [1, 2, 3], ''0-in-output-segment.part0'' \<mapsto> [1, 1, 1, 2, 1, 3, 0]])"
  by (simp add: compressPart_def readLoop_unfold Let_def oneMB_def partName_in_0 toyEncodeAll_def)

section \<open>The reassembler\<close>

lemma extractIndexes_ok:
  "\<forall>f \<in> set filenames. fileIndex f \<noteq> None \<Longrightarrow>
   extractIndexes filenames acc = Inr (acc @ map withIndex filenames)"
proof (induction filenames arbitrary: acc)
  case Nil
  then show ?case by simp
next
  case (Cons f filenames)
  from Cons.prems obtain i where i: "fileIndex f = Some i" by auto
  then have parts: "\<not> length (SplitN_dash_2 (Base f)) < 2" and atoi: "Atoi (SplitN_dash_2 (Base f) ! 0) = Some i"
    by (auto simp: fileIndex_def Let_def split: if_splits)
  have "withIndex f = \<lparr>Index = i, Name = f\<rparr>" by (simp add: withIndex_def i)
  with Cons parts atoi show ?case by (simp add: Let_def)
qed

lemma insort_key_map:
  "insort_key f (g x) (map g xs) = map g (insort_key (\<lambda>a. f (g a)) x xs)"
  by (induction xs) simp_all

lemma sort_key_map: "sort_key f (map g xs) = map g (sort_key (\<lambda>a. f (g a)) xs)"
  by (induction xs) (simp_all add: insort_key_map)

lemma sort_key_perm_unique:
  assumes "mset xs' = mset xs" "distinct (map f xs)"
  shows "sort_key f xs' = sort_key f xs"
proof -
  have d': "distinct (map f xs')"
    using assms by (metis mset_eq_imp_distinct_iff mset_map)
  have s: "set xs' = set xs" using assms(1) by (rule mset_eq_setD)
  have "map f (sort_key f xs') = map f (sort_key f xs)"
  proof (rule sorted_distinct_set_unique)
    show "sorted (map f (sort_key f xs'))" by simp
    show "sorted (map f (sort_key f xs))" by simp
    show "distinct (map f (sort_key f xs'))" using d' by (simp add: distinct_map)
    show "distinct (map f (sort_key f xs))" using assms(2) by (simp add: distinct_map)
    show "set (map f (sort_key f xs')) = set (map f (sort_key f xs))" using s by simp
  qed
  moreover have "inj_on f (set (sort_key f xs') \<union> set (sort_key f xs))"
    using assms(2) s by (simp add: distinct_map)
  ultimately show ?thesis by (rule inj_on_map_eq_map [THEN iffD1, rotated])
qed

lemma copyFiles_ok:
  "\<forall>file \<in> set files. resolve (Name file) \<noteq> resolve outputFile \<and> fs (resolve (Name file)) \<noteq> None \<Longrightarrow>
   fs (resolve outputFile) = Some old \<Longrightarrow>
   copyFiles resolve NoCFault k outputFile files fs =
     (Ok (), fs(resolve outputFile \<mapsto>
                  old @ concat (map (\<lambda>file. the (fs (resolve (Name file)))) files)))"
proof (induction files arbitrary: fs old k)
  case Nil
  then show ?case by (simp add: fun_upd_idem)
next
  case (Cons fl files)
  from Cons.prems obtain content where c: "fs (resolve (Name fl)) = Some content" by auto
  from Cons.prems have ne: "resolve (Name fl) \<noteq> resolve outputFile" by simp
  define fs' where "fs' = fs(resolve outputFile \<mapsto> old @ content)"
  have step: "copyFiles resolve NoCFault k outputFile (fl # files) fs =
      copyFiles resolve NoCFault (Suc k) outputFile files fs'"
    using c ne Cons.prems(2) by (simp add: fs'_def)
  have "\<forall>file \<in> set files. resolve (Name file) \<noteq> resolve outputFile \<and>
      fs' (resolve (Name file)) \<noteq> None"
    using Cons.prems by (simp add: fs'_def)
  moreover have "fs' (resolve outputFile) = Some (old @ content)" by (simp add: fs'_def)
  ultimately have IH: "copyFiles resolve NoCFault (Suc k) outputFile files fs' =
     (Ok (), fs'(resolve outputFile \<mapsto>
        (old @ content) @ concat (map (\<lambda>file. the (fs' (resolve (Name file)))) files)))"
    by (rule Cons.IH)
  have meq: "map (\<lambda>file. the (fs' (resolve (Name file)))) files =
      map (\<lambda>file. the (fs (resolve (Name file)))) files"
    by (intro map_cong refl) (use Cons.prems in \<open>simp add: fs'_def\<close>)
  show ?case unfolding step IH meq by (auto simp: fs'_def c)
qed

lemma copyFiles_keeps_files:
  "fs x \<noteq> None \<Longrightarrow> snd (copyFiles resolve cflt k outputFile files fs) x \<noteq> None"
proof (induction files arbitrary: fs k)
  case Nil
  then show ?case by simp
next
  case (Cons fl files)
  show ?case
  proof (cases "fs (resolve (Name fl))")
    case None
    with Cons.prems show ?thesis by simp
  next
    case (Some content)
    define fs' where "fs' = fs(resolve outputFile \<mapsto>
        (case fs (resolve outputFile) of None \<Rightarrow> [] | Some old \<Rightarrow> old) @ content)"
    have "fs' x \<noteq> None" using Cons.prems by (simp add: fs'_def)
    from Cons.IH [of fs' "Suc k", OF this]
    have "snd (copyFiles resolve cflt (Suc k) outputFile files fs') x \<noteq> None" .
    with Cons.prems Some show ?thesis by (simp add: fs'_def)
  qed
qed

lemma copyFiles_fault_fails:
  "cflt = CopyReadFails j \<or> cflt = CopyWriteFails j \<Longrightarrow> k \<le> j \<Longrightarrow> j < k + length files \<Longrightarrow>
   fst (copyFiles resolve cflt k outputFile files fs) \<noteq> Ok ()"
proof (induction files arbitrary: fs k)
  case Nil
  then show ?case by simp
next
  case (Cons fl files)
  show ?case
  proof (cases "fs (resolve (Name fl))")
    case None
    then show ?thesis by simp
  next
    case (Some content)
    show ?thesis
    proof (cases "k = j")
      case True
      with Cons.prems(1) Some show ?thesis by auto
    next
      case False
      with Cons.prems have "Suc k \<le> j" "j < Suc k + length files" by simp_all
      from Cons.IH [OF Cons.prems(1) this]
      have "fst (copyFiles resolve cflt (Suc k) outputFile files
          (fs(resolve outputFile \<mapsto>
             (case fs (resolve outputFile) of None \<Rightarrow> [] | Some old \<Rightarrow> old) @ content))) \<noteq> Ok ()" .
      with Some show ?thesis by simp
    qed
  qed
qed

lemma removeFiles_apply:
  "removeFiles resolve files fs x =
     (if x \<in> (\<lambda>file. resolve (Name file)) ` set files then None else fs x)"
  by (induction files arbitrary: fs) auto

lemma extractIndexes_length:
  "extractIndexes filenames acc = Inr files \<Longrightarrow> length files = length acc + length filenames"
proof (induction filenames arbitrary: acc)
  case Nil
  then show ?case by simp
next
  case (Cons f filenames)
  from Cons.prems obtain i where "Atoi (SplitN_dash_2 (Base f) ! 0) = Some i"
    and "extractIndexes filenames (acc @ [\<lparr>Index = i, Name = f\<rparr>]) = Inr files"
    by (auto simp: Let_def split: if_splits option.splits)
  from Cons.IH [OF this(2)] show ?case by simp
qed

lemma concatenateFiles_failure_keeps_files:
  assumes "fst (concatenateFiles resolve cflt fs filenames outputFile) \<noteq> Ok ()" and "fs x \<noteq> None"
  shows "snd (concatenateFiles resolve cflt fs filenames outputFile) x \<noteq> None"
proof (cases "extractIndexes filenames []")
  case (Inl e)
  with assms(2) show ?thesis by (simp add: concatenateFiles_def)
next
  case (Inr files)
  show ?thesis
  proof (cases "cflt = CreateOutFails")
    case True
    with Inr assms(2) show ?thesis by (simp add: concatenateFiles_def)
  next
    case False
    define cp where "cp = copyFiles resolve cflt 0 outputFile (sort_key Index files)
        (fs(resolve outputFile \<mapsto> []))"
    have cf: "concatenateFiles resolve cflt fs filenames outputFile =
        (case cp of (Ok u, fs') \<Rightarrow> (Ok (), removeFiles resolve (sort_key Index files) fs')
                  | (r, fs') \<Rightarrow> (r, fs'))"
      using Inr False by (simp add: concatenateFiles_def cp_def Let_def)
    have "(fs(resolve outputFile \<mapsto> [])) x \<noteq> None" using assms(2) by simp
    then have keep: "snd cp x \<noteq> None" unfolding cp_def by (rule copyFiles_keeps_files)
    from assms(1) have "fst cp \<noteq> Ok ()"
      unfolding cf by (cases cp; cases "fst cp") auto
    then have "concatenateFiles resolve cflt fs filenames outputFile = cp"
      unfolding cf by (cases cp; cases "fst cp") auto
    with keep show ?thesis by simp
  qed
qed

lemma concatenateFiles_fault_fails:
  assumes "failsWithin cflt (length filenames)"
  shows "fst (concatenateFiles resolve cflt fs filenames outputFile) \<noteq> Ok ()"
proof (cases "extractIndexes filenames []")
  case (Inl e)
  then show ?thesis by (simp add: concatenateFiles_def)
next
  case (Inr files)
  from extractIndexes_length [OF Inr] have len: "length files = length filenames" by simp
  show ?thesis
  proof (cases "cflt = CreateOutFails")
    case True
    with Inr show ?thesis by (simp add: concatenateFiles_def)
  next
    case False
    with assms obtain j where j: "cflt = CopyReadFails j \<or> cflt = CopyWriteFails j"
      and lt: "j < length filenames"
      by (cases cflt) simp_all
    define cp where "cp = copyFiles resolve cflt 0 outputFile (sort_key Index files)
        (fs(resolve outputFile \<mapsto> []))"
    have cf: "concatenateFiles resolve cflt fs filenames outputFile =
        (case cp of (Ok u, fs') \<Rightarrow> (Ok (), removeFiles resolve (sort_key Index files) fs')
                  | (r, fs') \<Rightarrow> (r, fs'))"
      using Inr False by (simp add: concatenateFiles_def cp_def Let_def)
    have "fst cp \<noteq> Ok ()"
      unfolding cp_def using j lt len by (intro copyFiles_fault_fails [where j = j]) simp_all
    then show ?thesis unfolding cf by (cases cp; cases "fst cp") auto
  qed
qed

lemma concatenateFiles_ok:
  assumes idx: "\<forall>f \<in> set filenames. fileIndex f \<noteq> None"
    and ex: "\<forall>f \<in> set filenames. fs (resolve f) \<noteq> None"
    and out: "resolve outputFile \<notin> resolve ` set filenames"
  shows "concatenateFiles resolve NoCFault fs filenames outputFile =
     (Ok (), removeFiles resolve (map withIndex (sort_key (\<lambda>f. the (fileIndex f)) filenames))
        (fs(resolve outputFile \<mapsto>
              concat (map (\<lambda>f. the (fs (resolve f))) (sort_key (\<lambda>f. the (fileIndex f)) filenames)))))"
proof -
  let ?sorted = "sort_key (\<lambda>f. the (fileIndex f)) filenames"
  have sorted: "sort_key Index (map withIndex filenames) = map withIndex ?sorted"
    by (simp add: sort_key_map withIndex_def)
  define fs0 where "fs0 = fs(resolve outputFile \<mapsto> [])"
  have ne: "resolve f \<noteq> resolve outputFile" if "f \<in> set filenames" for f
  proof
    assume eq: "resolve f = resolve outputFile"
    from that have "resolve f \<in> resolve ` set filenames" by (rule imageI)
    with eq out show False by simp
  qed
  have pre: "\<forall>file \<in> set (map withIndex ?sorted).
      resolve (Name file) \<noteq> resolve outputFile \<and> fs0 (resolve (Name file)) \<noteq> None"
    using ex ne by (auto simp: withIndex_def fs0_def)
  have "fs0 (resolve outputFile) = Some []" by (simp add: fs0_def)
  from copyFiles_ok [OF pre this]
  have c0: "copyFiles resolve NoCFault 0 outputFile (map withIndex ?sorted) fs0 =
     (Ok (), fs0(resolve outputFile \<mapsto> [] @ concat (map (\<lambda>file. the (fs0 (resolve (Name file))))
        (map withIndex ?sorted))))" .
  have meq: "map (\<lambda>file. the (fs0 (resolve (Name file)))) (map withIndex ?sorted)
      = map (\<lambda>f. the (fs (resolve f))) ?sorted"
    unfolding map_map by (intro map_cong refl) (use ne in \<open>auto simp: withIndex_def fs0_def\<close>)
  have copy: "copyFiles resolve NoCFault 0 outputFile (map withIndex ?sorted)
      (fs(resolve outputFile \<mapsto> [])) =
     (Ok (), fs(resolve outputFile \<mapsto> concat (map (\<lambda>f. the (fs (resolve f))) ?sorted)))"
    using c0 unfolding meq by (simp add: fs0_def)
  show ?thesis
    by (simp add: concatenateFiles_def extractIndexes_ok [OF idx] sorted copy)
qed



lemma distinct_the_fileIndex:
  assumes "\<forall>f \<in> set filenames. fileIndex f \<noteq> None" "distinct (map fileIndex filenames)"
  shows "distinct (map (\<lambda>f. the (fileIndex f)) filenames)"
proof -
  have "map (\<lambda>f. the (fileIndex f)) filenames = map the (map fileIndex filenames)" by simp
  moreover have "inj_on the (set (map fileIndex filenames))"
  proof (rule inj_onI)
    fix a b assume "a \<in> set (map fileIndex filenames)" "b \<in> set (map fileIndex filenames)"
      and eq: "the a = the b"
    with assms(1) have "a \<noteq> None" "b \<noteq> None" by auto
    with eq show "a = b" by (cases a; cases b) simp_all
  qed
  ultimately show ?thesis using assms(2) by (simp only: distinct_map) 
qed

text \<open>
  Claim C5, as amended.  For part files whose names carry distinct indexes, which exist
  and none of which is the file that the output path names, and with no failing call,
  the reassembler succeeds and the output file holds the byte-for-byte concatenation of
  the part files' contents in ascending order of their indexes; and the result is the
  same for every order in which the names are presented.
\<close>

theorem concatenateFiles_order_independent:
  assumes "\<forall>f \<in> set filenames. fileIndex f \<noteq> None"
    and "distinct (map fileIndex filenames)"
    and "\<forall>f \<in> set filenames. fs (resolve f) \<noteq> None"
    and "resolve outputFile \<notin> resolve ` set filenames"
    and "mset presented = mset filenames"
  shows "concatenateFiles resolve NoCFault fs presented outputFile =
           concatenateFiles resolve NoCFault fs filenames outputFile \<and>
         fst (concatenateFiles resolve NoCFault fs presented outputFile) = Ok () \<and>
         (\<exists>ordered. mset ordered = mset filenames \<and>
            sorted_wrt (\<lambda>a b. the (fileIndex a) < the (fileIndex b)) ordered \<and>
            snd (concatenateFiles resolve NoCFault fs presented outputFile) (resolve outputFile) =
              Some (concat (map (\<lambda>f. the (fs (resolve f))) ordered)))"
proof -
  let ?k = "\<lambda>f. the (fileIndex f)"
  let ?ordered = "sort_key ?k filenames"
  have s: "set presented = set filenames" using assms(5) by (rule mset_eq_setD)
  have dk: "distinct (map ?k filenames)" using distinct_the_fileIndex [OF assms(1,2)] .
  have same: "sort_key ?k presented = ?ordered"
    using sort_key_perm_unique [OF assms(5) dk] .
  have r: "concatenateFiles resolve NoCFault fs filenames outputFile =
     (Ok (), removeFiles resolve (map withIndex ?ordered)
        (fs(resolve outputFile \<mapsto> concat (map (\<lambda>f. the (fs (resolve f))) ?ordered))))"
    using concatenateFiles_ok [OF assms(1,3,4)] .
  have r': "concatenateFiles resolve NoCFault fs presented outputFile =
     (Ok (), removeFiles resolve (map withIndex ?ordered)
        (fs(resolve outputFile \<mapsto> concat (map (\<lambda>f. the (fs (resolve f))) ?ordered))))"
    using concatenateFiles_ok [of presented fs resolve outputFile] assms(1,3,4) unfolding s same
    by simp
  have "(\<lambda>file. resolve (Name file)) ` set (map withIndex ?ordered) = resolve ` set filenames"
    by (auto simp: withIndex_def image_iff)
  with assms(4)
  have "resolve outputFile \<notin> (\<lambda>file. resolve (Name file)) ` set (map withIndex ?ordered)"
    by (simp only: not_False_eq_True)
  then have out: "snd (concatenateFiles resolve NoCFault fs presented outputFile) (resolve outputFile) =
      Some (concat (map (\<lambda>f. the (fs (resolve f))) ?ordered))"
    unfolding r' by (simp add: removeFiles_apply)
  have "sorted (map ?k ?ordered)" "distinct (map ?k ?ordered)"
    using dk by (simp_all add: distinct_map)
  then have "sorted_wrt (<) (map ?k ?ordered)" by (simp add: strict_sorted_iff)
  then have asc: "sorted_wrt (\<lambda>a b. ?k a < ?k b) ?ordered" by (simp add: sorted_wrt_map)
  have "mset ?ordered = mset filenames" by simp
  with asc out have "\<exists>ordered. mset ordered = mset filenames \<and>
            sorted_wrt (\<lambda>a b. ?k a < ?k b) ordered \<and>
            snd (concatenateFiles resolve NoCFault fs presented outputFile) (resolve outputFile) =
              Some (concat (map (\<lambda>f. the (fs (resolve f))) ordered))"
    by blast
  moreover have "concatenateFiles resolve NoCFault fs presented outputFile =
           concatenateFiles resolve NoCFault fs filenames outputFile" unfolding r r' ..
  moreover have "fst (concatenateFiles resolve NoCFault fs presented outputFile) = Ok ()"
    unfolding r' by simp
  ultimately show ?thesis by blast
qed

lemma fileIndex_examples:
  "fileIndex ''0-a'' = Some 0" "fileIndex ''1-b'' = Some 1" "fileIndex ''./1-b'' = Some 1"
  "fileIndex ''2-c'' = Some 2"
  by code_simp+

lemma stripDotSlash_examples [simp]:
  "stripDotSlash ''0-a'' = ''0-a''" "stripDotSlash ''1-b'' = ''1-b''"
  "stripDotSlash ''2-c'' = ''2-c''" "stripDotSlash ''./0-a'' = ''0-a''"
  "stripDotSlash ''./1-b'' = ''1-b''" "stripDotSlash ''./out'' = ''out''"
proof -
  show "stripDotSlash ''0-a'' = ''0-a''" by (rule stripDotSlash_plain) simp
  show b: "stripDotSlash ''1-b'' = ''1-b''" by (rule stripDotSlash_plain) simp
  show "stripDotSlash ''2-c'' = ''2-c''" by (rule stripDotSlash_plain) simp
  show "stripDotSlash ''./0-a'' = ''0-a''"
    using stripDotSlash_dot [of "''0-a''"] stripDotSlash_plain [of "''0-a''"] by simp
  show "stripDotSlash ''./1-b'' = ''1-b''"
    using stripDotSlash_dot [of "''1-b''"] b by simp
  show "stripDotSlash ''./out'' = ''out''"
    using stripDotSlash_dot [of "''out''"] by simp
qed

theorem concatenateFiles_order_independent_witness:
  "fileIndex ''0-a'' = Some 0 \<and> fileIndex ''./1-b'' = Some 1 \<and> fileIndex ''2-c'' = Some 2 \<and>
   distinct (map fileIndex [''0-a'', ''./1-b'', ''2-c'']) \<and>
   [''2-c'' \<mapsto> [3 :: byte], ''0-a'' \<mapsto> [1], ''1-b'' \<mapsto> [2]] (stripDotSlash ''0-a'') = Some [1] \<and>
   [''2-c'' \<mapsto> [3 :: byte], ''0-a'' \<mapsto> [1], ''1-b'' \<mapsto> [2]] (stripDotSlash ''./1-b'') = Some [2] \<and>
   [''2-c'' \<mapsto> [3 :: byte], ''0-a'' \<mapsto> [1], ''1-b'' \<mapsto> [2]] (stripDotSlash ''2-c'') = Some [3] \<and>
   stripDotSlash ''./out'' \<notin> stripDotSlash ` set [''0-a'', ''./1-b'', ''2-c''] \<and>
   mset [''2-c'', ''0-a'', ''./1-b''] = mset [''0-a'', ''./1-b'', ''2-c''] \<and>
   concatenateFiles stripDotSlash NoCFault [''2-c'' \<mapsto> [3], ''0-a'' \<mapsto> [1], ''1-b'' \<mapsto> [2]]
       [''2-c'', ''0-a'', ''./1-b''] ''./out'' =
     concatenateFiles stripDotSlash NoCFault [''2-c'' \<mapsto> [3], ''0-a'' \<mapsto> [1], ''1-b'' \<mapsto> [2]]
       [''0-a'', ''./1-b'', ''2-c''] ''./out'' \<and>
   fst (concatenateFiles stripDotSlash NoCFault [''2-c'' \<mapsto> [3], ''0-a'' \<mapsto> [1], ''1-b'' \<mapsto> [2]]
       [''2-c'', ''0-a'', ''./1-b''] ''./out'') = Ok () \<and>
   (\<exists>ordered. mset ordered = mset [''0-a'', ''./1-b'', ''2-c''] \<and>
      sorted_wrt (\<lambda>a b. the (fileIndex a) < the (fileIndex b)) ordered \<and>
      snd (concatenateFiles stripDotSlash NoCFault [''2-c'' \<mapsto> [3], ''0-a'' \<mapsto> [1], ''1-b'' \<mapsto> [2]]
             [''2-c'', ''0-a'', ''./1-b''] ''./out'') (stripDotSlash ''./out'') =
        Some (concat (map (\<lambda>f. the ([''2-c'' \<mapsto> [3], ''0-a'' \<mapsto> [1], ''1-b'' \<mapsto> [2 :: byte]]
                                      (stripDotSlash f))) ordered)))"
proof -
  let ?fs = "[''2-c'' \<mapsto> [3 :: byte], ''0-a'' \<mapsto> [1], ''1-b'' \<mapsto> [2]]"
  have h1: "\<forall>f \<in> set [''0-a'', ''./1-b'', ''2-c'']. fileIndex f \<noteq> None"
    by (simp add: fileIndex_examples)
  have h2: "distinct (map fileIndex [''0-a'', ''./1-b'', ''2-c''])"
    by (simp add: fileIndex_examples)
  have e: "?fs (stripDotSlash ''0-a'') = Some [1]" "?fs (stripDotSlash ''./1-b'') = Some [2]"
    "?fs (stripDotSlash ''2-c'') = Some [3]"
    by simp_all
  then have h3: "\<forall>f \<in> set [''0-a'', ''./1-b'', ''2-c'']. ?fs (stripDotSlash f) \<noteq> None"
    by simp
  have h4: "stripDotSlash ''./out'' \<notin> stripDotSlash ` set [''0-a'', ''./1-b'', ''2-c'']" by simp
  have h5: "mset [''2-c'', ''0-a'', ''./1-b''] = mset [''0-a'', ''./1-b'', ''2-c'']" by simp
  from concatenateFiles_order_independent [OF h1 h2 h3 h4 h5] fileIndex_examples h2 e h4 h5
  show ?thesis by blast
qed

text \<open>
  Claim C5 as stated fails when the output path names one of the part files: with the
  parts \<^verbatim>\<open>0-a\<close> and \<^verbatim>\<open>1-b\<close> and the output path \<^verbatim>\<open>./0-a\<close>, creating the output empties
  the first part, the copies fill it with the second part only, and the last loop removes
  it with the parts.  The call returns no error and leaves no output file.
\<close>

theorem concatenateFiles_order_independent_counterexample:
  "fst (concatenateFiles stripDotSlash NoCFault [''0-a'' \<mapsto> [1], ''1-b'' \<mapsto> [2]]
          [''0-a'', ''1-b''] ''./0-a'') = Ok () \<and>
   snd (concatenateFiles stripDotSlash NoCFault [''0-a'' \<mapsto> [1], ''1-b'' \<mapsto> [2]]
          [''0-a'', ''1-b''] ''./0-a'') (stripDotSlash ''./0-a'') = None"
proof -
  have "\<forall>f \<in> set [''0-a'', ''1-b'']. fileIndex f \<noteq> None" by (simp add: fileIndex_examples)
  from extractIndexes_ok [OF this, of "[]"]
  have x: "extractIndexes [''0-a'', ''1-b''] [] =
      Inr [\<lparr>Index = 0, Name = ''0-a''\<rparr>, \<lparr>Index = 1, Name = ''1-b''\<rparr>]"
    by (simp add: withIndex_def fileIndex_examples)
  show ?thesis unfolding concatenateFiles_def x by simp
qed

section \<open>The names of the part files\<close>

lemma digitValue_digitChar: "d < 10 \<Longrightarrow> digitValue (digitChar d) = Some d"
  by (simp add: digitValue_def digitChar_def Let_def)

lemma digitChar_not_special:
  assumes "d < 10"
  shows "digitChar d \<noteq> CHR ''-''" "digitChar d \<noteq> CHR ''+''" "digitChar d \<noteq> CHR ''/''"
proof -
  have v: "of_char (digitChar d) = 48 + d" using assms by (simp add: digitChar_def)
  show "digitChar d \<noteq> CHR ''-''"
  proof
    assume "digitChar d = CHR ''-''"
    then have "(of_char (digitChar d) :: nat) = of_char CHR ''-''" by simp
    with v show False by simp
  qed
  show "digitChar d \<noteq> CHR ''+''"
  proof
    assume "digitChar d = CHR ''+''"
    then have "(of_char (digitChar d) :: nat) = of_char CHR ''+''" by simp
    with v show False by simp
  qed
  show "digitChar d \<noteq> CHR ''/''"
  proof
    assume "digitChar d = CHR ''/''"
    then have "(of_char (digitChar d) :: nat) = of_char CHR ''/''" by simp
    with v show False by simp
  qed
qed

lemma decimal_digits: "c \<in> set (decimal n) \<Longrightarrow> \<exists>d < 10. c = digitChar d"
proof (induction n rule: decimal.induct)
  case (1 n)
  show ?case
  proof (cases "n < 10")
    case True
    with "1.prems" show ?thesis by (subst (asm) decimal.simps) auto
  next
    case False
    with "1.prems" have "c \<in> set (decimal (n div 10)) \<or> c = digitChar (n mod 10)"
      by (subst (asm) decimal.simps) auto
    then show ?thesis
    proof
      assume "c \<in> set (decimal (n div 10))"
      with "1.IH" False show ?thesis by simp
    next
      assume "c = digitChar (n mod 10)"
      moreover have "n mod 10 < 10" by simp
      ultimately show ?thesis by blast
    qed
  qed
qed

lemma decimal_nonempty: "decimal n \<noteq> []"
  by (subst decimal.simps) simp

lemma decimal_no_special:
  "CHR ''-'' \<notin> set (decimal n)" "CHR ''+'' \<notin> set (decimal n)" "CHR ''/'' \<notin> set (decimal n)"
proof -
  have *: "c \<noteq> CHR ''-'' \<and> c \<noteq> CHR ''+'' \<and> c \<noteq> CHR ''/''" if "c \<in> set (decimal n)" for c
  proof -
    from decimal_digits [OF that] obtain d where "d < 10" "c = digitChar d" by blast
    then show ?thesis using digitChar_not_special [of d] by simp
  qed
  show "CHR ''-'' \<notin> set (decimal n)" "CHR ''+'' \<notin> set (decimal n)" "CHR ''/'' \<notin> set (decimal n)"
    using * by blast+
qed

lemma parseDigits_append:
  "parseDigits acc (xs @ ys) =
     (case parseDigits acc xs of None \<Rightarrow> None | Some a \<Rightarrow> parseDigits a ys)"
  by (induction xs arbitrary: acc) (simp_all split: option.splits)

lemma parseDigits_decimal:
  "parseDigits acc (decimal n) = Some (acc * 10 ^ length (decimal n) + n)"
proof (induction n arbitrary: acc rule: decimal.induct)
  case (1 n)
  show ?case
  proof (cases "n < 10")
    case True
    then have "decimal n = [digitChar n]" by (subst decimal.simps) simp
    with True show ?thesis by (simp add: digitValue_digitChar)
  next
    case False
    then have d: "decimal n = decimal (n div 10) @ [digitChar (n mod 10)]"
      by (subst decimal.simps) simp
    have "n mod 10 < 10" by simp
    then have dv: "digitValue (digitChar (n mod 10)) = Some (n mod 10)"
      by (rule digitValue_digitChar)
    have "parseDigits acc (decimal n) =
        Some ((acc * 10 ^ length (decimal (n div 10)) + n div 10) * 10 + n mod 10)"
      unfolding d parseDigits_append "1.IH" [OF False] by (simp add: dv)
    also have "(acc * 10 ^ length (decimal (n div 10)) + n div 10) * 10 + n mod 10 =
        acc * 10 ^ length (decimal n) + n"
      unfolding d by (simp add: algebra_simps)
    finally show ?thesis .
  qed
qed

lemma Atoi_fmt_d:
  assumes "0 \<le> i" "i < 2 ^ 63"
  shows "Atoi (fmt_d i) = Some i"
proof -
  obtain c cs where ccs: "decimal (nat i) = c # cs"
    using decimal_nonempty [of "nat i"] by (cases "decimal (nat i)") auto
  then have "c \<in> set (decimal (nat i))" by simp
  with decimal_no_special [of "nat i"] have c: "c \<noteq> CHR ''-''" "c \<noteq> CHR ''+''" by auto
  have p: "parseDigits 0 (c # cs) = Some (nat i)"
    using parseDigits_decimal [of 0 "nat i"] unfolding ccs by simp
  show ?thesis
    using assms c unfolding Atoi_def fmt_d_def ccs
    by (simp add: p Let_def del: parseDigits.simps)
qed

lemma SplitN_dash_2_prefix:
  assumes "CHR ''-'' \<notin> set ds"
  shows "SplitN_dash_2 (ds @ CHR ''-'' # rest) = [ds, rest]"
proof -
  have "takeWhile (\<lambda>c. c \<noteq> CHR ''-'') (ds @ CHR ''-'' # rest) = ds"
    using assms by (subst takeWhile_append2) auto
  then show ?thesis by (simp add: SplitN_dash_2_def Let_def)
qed

lemma Base_plain:
  assumes "path \<noteq> []" "CHR ''/'' \<notin> set path"
  shows "Base path = path"
proof -
  have d: "dropWhile (\<lambda>c. c = CHR ''/'') (rev path) = rev path"
    using assms by (cases "rev path") auto
  have t: "takeWhile (\<lambda>c. c \<noteq> CHR ''/'') (rev path) = rev path"
    using assms by auto
  show ?thesis unfolding Base_def Let_def d rev_rev_ident t using assms(1) by simp
qed

lemma Base_no_slash:
  assumes "Base path \<noteq> ''/''"
  shows "CHR ''/'' \<notin> set (Base path)"
proof (cases "path = []")
  case True
  then show ?thesis by (simp add: Base_def)
next
  case False
  define stripped where "stripped = rev (dropWhile (\<lambda>c. c = CHR ''/'') (rev path))"
  define element where "element = rev (takeWhile (\<lambda>c. c \<noteq> CHR ''/'') (rev stripped))"
  have B: "Base path = (if element = [] then ''/'' else element)"
    using False by (simp add: Base_def Let_def stripped_def element_def)
  with assms have "Base path = element" by (simp split: if_splits)
  moreover have "CHR ''/'' \<notin> set element"
    unfolding element_def using set_takeWhileD [of "CHR ''/''" "\<lambda>c. c \<noteq> CHR ''/''"] by auto
  ultimately show ?thesis by simp
qed

lemma Base_nonempty: "Base path \<noteq> []"
  by (simp add: Base_def Let_def)

lemma Base_length: "path \<noteq> [] \<Longrightarrow> length (Base path) \<le> length path"
proof -
  assume ne: "path \<noteq> []"
  define stripped where "stripped = rev (dropWhile (\<lambda>c. c = CHR ''/'') (rev path))"
  define element where "element = rev (takeWhile (\<lambda>c. c \<noteq> CHR ''/'') (rev stripped))"
  have B: "Base path = (if element = [] then ''/'' else element)"
    using ne by (simp add: Base_def Let_def stripped_def element_def)
  have "length element \<le> length stripped"
    unfolding element_def using length_takeWhile_le [of _ "rev stripped"] by simp
  also have "length stripped \<le> length path"
    unfolding stripped_def using length_dropWhile_le [of _ "rev path"] by simp
  finally have "length element \<le> length path" .
  moreover have "1 \<le> length path" using ne by (cases path) simp_all
  ultimately show ?thesis unfolding B by simp
qed

lemma fmt_d_no_slash: "CHR ''/'' \<notin> set (fmt_d i)"
  using decimal_no_special(3) by (simp add: fmt_d_def)

lemma fmt_d_nonempty: "fmt_d i \<noteq> []"
  using decimal_nonempty by (simp add: fmt_d_def)

lemma Base_of_non_slash_head:
  assumes "path \<noteq> []" "hd path \<noteq> CHR ''/''"
  shows "Base path \<noteq> ''/''"
proof -
  define stripped where "stripped = rev (dropWhile (\<lambda>c. c = CHR ''/'') (rev path))"
  define element where "element = rev (takeWhile (\<lambda>c. c \<noteq> CHR ''/'') (rev stripped))"
  have B: "Base path = (if element = [] then ''/'' else element)"
    using assms(1) by (simp add: Base_def Let_def stripped_def element_def)
  have "hd path \<in> set (rev path)" using assms(1) by simp
  with assms(2) have ne: "dropWhile (\<lambda>c. c = CHR ''/'') (rev path) \<noteq> []"
    unfolding dropWhile_eq_Nil_conv by blast
  then have "hd (dropWhile (\<lambda>c. c = CHR ''/'') (rev path)) \<noteq> CHR ''/''"
    using hd_dropWhile [of "\<lambda>c. c = CHR ''/''" "rev path"] by simp
  with ne have "takeWhile (\<lambda>c. c \<noteq> CHR ''/'') (dropWhile (\<lambda>c. c = CHR ''/'') (rev path)) \<noteq> []"
    by (cases "dropWhile (\<lambda>c. c = CHR ''/'') (rev path)") simp_all
  then have e: "element \<noteq> []" by (simp add: element_def stripped_def)
  have "CHR ''/'' \<notin> set element"
    unfolding element_def using set_takeWhileD [of "CHR ''/''" "\<lambda>c. c \<noteq> CHR ''/''"] by auto
  then have "element \<noteq> ''/''" by auto
  with e show ?thesis unfolding B by simp
qed

lemma partName_neq_input: "partName inputFile i \<noteq> inputFile"
proof
  assume eq: "partName inputFile i = inputFile"
  have pn: "partName inputFile i = fmt_d i @ (''-'' @ Base inputFile @ ''-output-segment.part'' @ fmt_d i)"
    by (simp add: partName_def)
  have ne: "inputFile \<noteq> []" using eq fmt_d_nonempty [of i] unfolding pn by auto
  have "hd (partName inputFile i) = hd (fmt_d i)"
    unfolding pn using fmt_d_nonempty [of i] by simp 
  moreover have "hd (fmt_d i) \<in> set (fmt_d i)" using fmt_d_nonempty [of i] by simp
  ultimately have "hd inputFile \<noteq> CHR ''/''" using fmt_d_no_slash [of i] eq by metis
  from Base_of_non_slash_head [OF ne this] have "CHR ''/'' \<notin> set (Base inputFile)"
    by (rule Base_no_slash)
  then have "CHR ''/'' \<notin> set (partName inputFile i)"
    using fmt_d_no_slash [of i] by (simp add: partName_def)
  with eq have "CHR ''/'' \<notin> set inputFile" by simp
  from Base_plain [OF ne this] have "length (partName inputFile i) > length inputFile"
    by (simp add: partName_def)
  with eq show False by simp
qed

lemma fileIndex_partName:
  assumes "0 \<le> i" "i < 2 ^ 63" "Base inputFile \<noteq> ''/''"
  shows "fileIndex (partName inputFile i) = Some i"
proof -
  have d: "fmt_d i = decimal (nat i)" using assms by (simp add: fmt_d_def)
  have noslash: "CHR ''/'' \<notin> set (partName inputFile i)"
    using Base_no_slash [OF assms(3)] decimal_no_special(3) [of "nat i"]
    by (simp add: partName_def d)
  have "partName inputFile i \<noteq> []" by (simp add: partName_def)
  from Base_plain [OF this noslash] have B: "Base (partName inputFile i) = partName inputFile i" .
  have "partName inputFile i =
      decimal (nat i) @ CHR ''-'' # (Base inputFile @ ''-output-segment.part'' @ fmt_d i)"
    by (simp add: partName_def d)
  then have "SplitN_dash_2 (partName inputFile i) =
      [decimal (nat i), Base inputFile @ ''-output-segment.part'' @ fmt_d i]"
    using SplitN_dash_2_prefix [OF decimal_no_special(1) [of "nat i"]] by simp
  then show ?thesis
    using Atoi_fmt_d [OF assms(1,2)] by (simp add: fileIndex_def B Let_def d)
qed

lemma partName_inj:
  assumes "0 \<le> i" "i < 2 ^ 63" "0 \<le> j" "j < 2 ^ 63" "Base inputFile \<noteq> ''/''"
    and "partName inputFile i = partName inputFile j"
  shows "i = j"
proof -
  from assms(6) have "fileIndex (partName inputFile i) = fileIndex (partName inputFile j)"
    by (rule arg_cong)
  then have "Some i = Some j"
    unfolding fileIndex_partName [OF assms(1,2,5)] fileIndex_partName [OF assms(3,4,5)] .
  then show ?thesis by (rule option.inject [THEN iffD1])
qed

lemma partName_no_slash: "Base inputFile \<noteq> ''/'' \<Longrightarrow> CHR ''/'' \<notin> set (partName inputFile i)"
  using Base_no_slash [of inputFile] fmt_d_no_slash [of i] by (simp add: partName_def)

lemma stripDotSlash_no_slash: "CHR ''/'' \<notin> set path \<Longrightarrow> stripDotSlash path = path"
proof (rule stripDotSlash_plain)
  assume n: "CHR ''/'' \<notin> set path"
  show "take 2 path \<noteq> ''./''"
  proof
    assume "take 2 path = ''./''"
    then have "CHR ''/'' \<in> set (take 2 path)" by simp
    then have "CHR ''/'' \<in> set path" by (rule in_set_takeD)
    with n show False by simp
  qed
qed

lemma stripDotSlash_partName:
  "Base inputFile \<noteq> ''/'' \<Longrightarrow> stripDotSlash (partName inputFile i) = partName inputFile i"
  by (rule stripDotSlash_no_slash) (rule partName_no_slash)

section \<open>The orchestrator: running the workers\<close>

lemma readLoop_Err_forms:
  "fst (readLoop encode flt inputFile outputFile content e k pos out) = Err x \<Longrightarrow>
   x \<in> {ReadInputFailed inputFile, WritePartFailed outputFile, GetOffsetFailed inputFile}"
proof (induction "length content - pos" arbitrary: pos k out rule: less_induct)
  case less
  define data where "data = take (nat oneMB) (drop pos content)"
  note unfold = readLoop_unfold [of encode flt inputFile outputFile content e k pos out,
      unfolded Let_def, folded data_def]
  show ?case
  proof (cases "flt = ReadFails k \<or> data = [] \<or> flt = WriteFails k \<or> flt = SeekFails k \<or>
      int (pos + length data) = e \<or> int (pos + length data) > e")
    case True
    with less.prems show ?thesis unfolding unfold by (auto split: if_splits)
  next
    case False
    then have n: "data \<noteq> []" by simp
    then have "pos < length content" by (auto simp: data_def)
    moreover from n have "0 < length data" by simp
    ultimately have m: "length content - (pos + length data) < length content - pos" by linarith
    from less.prems False
    have "fst (readLoop encode flt inputFile outputFile content e (Suc k) (pos + length data)
        (out @ encode data)) = Err x"
      unfolding unfold by simp
    from less.hyps [OF m this] show ?thesis .
  qed
qed

lemma compressPart_effect:
  "snd (compressPart resolve encodeAll flt fs inputFile i seg level) = fs \<or>
   (\<exists>w. snd (compressPart resolve encodeAll flt fs inputFile i seg level) =
          fs(resolve (partName inputFile i) \<mapsto> w))"
proof (cases "if flt = OpenFails then None else fs (resolve inputFile)")
  case None
  then show ?thesis by (simp add: compressPart_def)
next
  case (Some opened)
  define c where
    "c = (if resolve (partName inputFile i) = resolve inputFile then [] else opened)"
  obtain r written where rl: "readLoop (encodeAll level) flt inputFile (partName inputFile i) c
      (snd seg) 0 (nat (fst seg)) [] = (r, written)"
    by (cases "readLoop (encodeAll level) flt inputFile (partName inputFile i) c
      (snd seg) 0 (nat (fst seg)) []")
  show ?thesis using Some rl by (auto simp: compressPart_def Let_def c_def)
qed

lemma compressPart_frame:
  "x \<noteq> resolve (partName inputFile i) \<Longrightarrow>
   snd (compressPart resolve encodeAll flt fs inputFile i seg level) x = fs x"
  using compressPart_effect [of resolve encodeAll flt fs inputFile i seg level] by auto

lemma compressPart_keeps_files:
  "fs x \<noteq> None \<Longrightarrow> snd (compressPart resolve encodeAll flt fs inputFile i seg level) x \<noteq> None"
  using compressPart_effect [of resolve encodeAll flt fs inputFile i seg level] by auto

lemma compressPart_keeps_input:
  "resolve (partName inputFile i) \<noteq> resolve inputFile \<Longrightarrow>
   snd (compressPart resolve encodeAll flt fs inputFile i seg level) (resolve inputFile) =
     fs (resolve inputFile)"
  by (intro compressPart_frame) simp

lemma compressPart_fst_indep:
  "fs' (resolve inputFile) = fs (resolve inputFile) \<Longrightarrow>
   fst (compressPart resolve encodeAll flt fs' inputFile i seg level) =
   fst (compressPart resolve encodeAll flt fs inputFile i seg level)"
  by (simp add: compressPart_def Let_def split: option.splits prod.splits)

lemma compressPart_Ok_creates:
  "fst (compressPart resolve encodeAll flt fs inputFile i seg level) = Ok n \<Longrightarrow>
   n = partName inputFile i \<and>
   snd (compressPart resolve encodeAll flt fs inputFile i seg level)
     (resolve (partName inputFile i)) \<noteq> None"
  by (auto simp: compressPart_def Let_def split: option.splits prod.splits if_splits outcome.splits)

lemma compressPart_Err_forms:
  "fst (compressPart resolve encodeAll flt fs inputFile i seg level) = Err e \<Longrightarrow>
   e \<in> {OpenInputFailed inputFile, CreatePartFailed (partName inputFile i), CreateEncoderFailed,
        ReadInputFailed inputFile, WritePartFailed (partName inputFile i),
        GetOffsetFailed inputFile}"
proof (cases "if flt = OpenFails then None else fs (resolve inputFile)")
  case None
  assume "fst (compressPart resolve encodeAll flt fs inputFile i seg level) = Err e"
  with None show ?thesis by (simp add: compressPart_def)
next
  case (Some opened)
  assume err: "fst (compressPart resolve encodeAll flt fs inputFile i seg level) = Err e"
  define c where
    "c = (if resolve (partName inputFile i) = resolve inputFile then [] else opened)"
  define rl where "rl = readLoop (encodeAll level) flt inputFile (partName inputFile i) c
      (snd seg) 0 (nat (fst seg)) []"
  have loop: "fst rl = Err x \<Longrightarrow>
      x \<in> {ReadInputFailed inputFile, WritePartFailed (partName inputFile i),
           GetOffsetFailed inputFile}" for x
    unfolding rl_def by (rule readLoop_Err_forms)
  show ?thesis
  proof (cases "flt = CreateFails \<or> flt = NewWriterFails")
    case True
    with err Some show ?thesis by (auto simp: compressPart_def Let_def)
  next
    case False
    with err Some have "fst rl = Err e"
      by (cases rl; cases "fst rl")
         (auto simp: compressPart_def Let_def c_def rl_def split: prod.splits)
    from loop [OF this] show ?thesis by auto
  qed
qed

lemma plannedFor_Cons:
  "plannedFor content offset (i # sched) \<longleftrightarrow>
     (0 \<le> i \<and> i < int (length offset) \<and>
      inSegment content (snd (offset ! nat i)) (nat (fst (offset ! nat i)))) \<and>
     plannedFor content offset sched"
  by (simp add: plannedFor_def)

lemma runWorkers_general:
  assumes "fs0 (resolve inputFile) = Some content"
  shows "fs (resolve inputFile) = Some content \<Longrightarrow> plannedFor content offset sched \<Longrightarrow>
     \<forall>i \<in> set sched. resolve (partName inputFile i) \<noteq> resolve inputFile \<Longrightarrow>
     \<exists>fs' names. runWorkers resolve encodeAll flt inputFile level offset sched fs =
        (None, fs', names,
         List.map_filter (workerError resolve encodeAll flt fs0 inputFile level offset) sched) \<and>
        length names = length sched \<and>
        fs' (resolve inputFile) = Some content \<and>
        (\<forall>x. fs x \<noteq> None \<longrightarrow> fs' x \<noteq> None) \<and>
        (\<forall>i \<in> set sched. workerError resolve encodeAll flt fs0 inputFile level offset i = None \<longrightarrow>
           fs' (resolve (partName inputFile i)) \<noteq> None)"
proof (induction sched arbitrary: fs)
  case Nil
  then show ?case by (simp add: List.map_filter_simps)
next
  case (Cons i sched)
  from Cons.prems(2) have rng: "0 \<le> i" "i < int (length offset)"
    and seg: "inSegment content (snd (offset ! nat i)) (nat (fst (offset ! nat i)))"
    and rest: "plannedFor content offset sched"
    by (simp_all add: plannedFor_Cons)
  from Cons.prems(3) have na: "resolve (partName inputFile i) \<noteq> resolve inputFile"
    and nrest: "\<forall>j \<in> set sched. resolve (partName inputFile j) \<noteq> resolve inputFile"
    by simp_all
  define r where "r = compressPart resolve encodeAll (flt i) fs inputFile i (offset ! nat i) level"
  define fs1 where "fs1 = snd r"
  have r: "compressPart resolve encodeAll (flt i) fs inputFile i (offset ! nat i) level = (fst r, fs1)"
    by (simp add: r_def fs1_def)
  have fst0: "fst r = fst (compressPart resolve encodeAll (flt i) fs0 inputFile i (offset ! nat i) level)"
    unfolding r_def using Cons.prems(1) assms by (intro compressPart_fst_indep) simp
  have nopanic: "fst r \<noteq> Panic p" for p
    unfolding r_def using seg Cons.prems(1) by (intro compressPart_no_panic) simp
  have in1: "fs1 (resolve inputFile) = Some content"
    unfolding fs1_def r_def compressPart_keeps_input [OF na] using Cons.prems(1) .
  have keep1: "fs x \<noteq> None \<Longrightarrow> fs1 x \<noteq> None" for x
    unfolding fs1_def r_def by (rule compressPart_keeps_files)
  from Cons.IH [of fs1, OF in1 rest nrest] obtain fs' names where
    run: "runWorkers resolve encodeAll flt inputFile level offset sched fs1 =
        (None, fs', names,
         List.map_filter (workerError resolve encodeAll flt fs0 inputFile level offset) sched)"
    and len: "length names = length sched"
    and in': "fs' (resolve inputFile) = Some content"
    and keep': "\<forall>x. fs1 x \<noteq> None \<longrightarrow> fs' x \<noteq> None"
    and done': "\<forall>j \<in> set sched. workerError resolve encodeAll flt fs0 inputFile level offset j = None \<longrightarrow>
           fs' (resolve (partName inputFile j)) \<noteq> None"
    by blast
  have keep: "\<forall>x. fs x \<noteq> None \<longrightarrow> fs' x \<noteq> None" using keep1 keep' by blast
  show ?case
  proof (cases "fst r")
    case (Ok n)
    then have we: "workerError resolve encodeAll flt fs0 inputFile level offset i = None"
      by (simp add: workerError_def flip: fst0)
    from compressPart_Ok_creates [of resolve encodeAll "flt i" fs inputFile i "offset ! nat i" level n] Ok
    have "fs1 (resolve (partName inputFile i)) \<noteq> None" by (simp add: r_def fs1_def)
    with keep' have "fs' (resolve (partName inputFile i)) \<noteq> None" by blast
    with done' have d: "\<forall>j \<in> set (i # sched). workerError resolve encodeAll flt fs0 inputFile level offset j = None \<longrightarrow>
           fs' (resolve (partName inputFile j)) \<noteq> None" by simp
    have "runWorkers resolve encodeAll flt inputFile level offset (i # sched) fs =
        (None, fs', n # names,
         List.map_filter (workerError resolve encodeAll flt fs0 inputFile level offset) (i # sched))"
      using rng r Ok run we by (simp add: List.map_filter_simps)
    moreover have "length (n # names) = length (i # sched)" using len by simp
    ultimately show ?thesis using in' keep d by blast
  next
    case (Err e)
    then have we: "workerError resolve encodeAll flt fs0 inputFile level offset i = Some e"
      by (simp add: workerError_def flip: fst0)
    with done' have d: "\<forall>j \<in> set (i # sched). workerError resolve encodeAll flt fs0 inputFile level offset j = None \<longrightarrow>
           fs' (resolve (partName inputFile j)) \<noteq> None" by simp
    have "runWorkers resolve encodeAll flt inputFile level offset (i # sched) fs =
        (None, fs', [] # names,
         List.map_filter (workerError resolve encodeAll flt fs0 inputFile level offset) (i # sched))"
      using rng r Err run we by (simp add: List.map_filter_simps)
    moreover have "length ([] # names) = length (i # sched)" using len by simp
    ultimately show ?thesis using in' keep d by blast
  next
    case (Panic p)
    show ?thesis by (rule notE [OF nopanic Panic])
  qed
qed

lemma runWorkers_NoFault:
  "fs (resolve inputFile) = Some content \<Longrightarrow> plannedFor content offset sched \<Longrightarrow>
   \<forall>i \<in> set sched. resolve (partName inputFile i) \<noteq> resolve inputFile \<Longrightarrow>
   runWorkers resolve encodeAll (\<lambda>i. NoFault) inputFile level offset sched fs =
     (None,
      fold (\<lambda>i f. f(resolve (partName inputFile i) \<mapsto>
                      partContent encodeAll level content (offset ! nat i))) sched fs,
      map (partName inputFile) sched, [])"
proof (induction sched arbitrary: fs)
  case Nil
  then show ?case by simp
next
  case (Cons i sched)
  from Cons.prems(2) have rng: "0 \<le> i" "i < int (length offset)"
    and seg: "inSegment content (snd (offset ! nat i)) (nat (fst (offset ! nat i)))"
    and rest: "plannedFor content offset sched"
    by (simp_all add: plannedFor_Cons)
  from Cons.prems(3) have na: "resolve (partName inputFile i) \<noteq> resolve inputFile"
    and nrest: "\<forall>j \<in> set sched. resolve (partName inputFile j) \<noteq> resolve inputFile"
    by simp_all
  define fs1 where
    "fs1 = fs(resolve (partName inputFile i) \<mapsto> partContent encodeAll level content (offset ! nat i))"
  have w: "compressPart resolve encodeAll NoFault fs inputFile i (offset ! nat i) level =
      (Ok (partName inputFile i), fs1)"
    using compressPart_reads_segment [of fs resolve inputFile content i "offset ! nat i" encodeAll level]
      Cons.prems(1) na seg by (simp add: fs1_def partContent_def)
  have "fs1 (resolve inputFile) = Some content"
    using Cons.prems(1) na by (auto simp: fs1_def)
  from Cons.IH [of fs1, OF this rest nrest]
  have IH: "runWorkers resolve encodeAll (\<lambda>i. NoFault) inputFile level offset sched fs1 =
     (None,
      fold (\<lambda>i f. f(resolve (partName inputFile i) \<mapsto>
                      partContent encodeAll level content (offset ! nat i))) sched fs1,
      map (partName inputFile) sched, [])" .
  have step: "runWorkers resolve encodeAll (\<lambda>i. NoFault) inputFile level offset (i # sched) fs =
      (case runWorkers resolve encodeAll (\<lambda>i. NoFault) inputFile level offset sched fs1 of
         (p, fs'', names, errs) \<Rightarrow> (p, fs'', partName inputFile i # names, errs))"
    using rng w by simp
  have f: "fold (\<lambda>i f. f(resolve (partName inputFile i) \<mapsto>
                      partContent encodeAll level content (offset ! nat i))) (i # sched) fs
      = fold (\<lambda>i f. f(resolve (partName inputFile i) \<mapsto>
                      partContent encodeAll level content (offset ! nat i))) sched fs1"
    unfolding fs1_def by (rule fold_simps(2))
  show ?case unfolding step IH f by simp
qed

lemma fold_upd_other:
  "x \<notin> name ` set sched \<Longrightarrow> fold (\<lambda>i f. f(name i \<mapsto> v i)) sched fs x = fs x"
  by (induction sched arbitrary: fs) auto

lemma fold_upd_in:
  "inj_on name (set sched) \<Longrightarrow> i \<in> set sched \<Longrightarrow>
   fold (\<lambda>i f. f(name i \<mapsto> v i)) sched fs (name i) = Some (v i)"
proof (induction sched arbitrary: fs)
  case Nil
  then show ?case by simp
next
  case (Cons a sched)
  have inj: "inj_on name (set sched)" using Cons.prems(1) by (simp add: inj_on_def)
  show ?case
  proof (cases "i \<in> set sched")
    case True
    have "fold (\<lambda>i f. f(name i \<mapsto> v i)) (a # sched) fs =
        fold (\<lambda>i f. f(name i \<mapsto> v i)) sched (fs(name a \<mapsto> v a))"
      by (rule fold_simps(2))
    with Cons.IH [OF inj True, of "fs(name a \<mapsto> v a)"] show ?thesis by (simp only:)
  next
    case False
    with Cons.prems(2) have ia: "i = a" by simp
    have "name a \<notin> name ` set sched"
      using Cons.prems(1) False ia by (auto simp: inj_on_def)
    from fold_upd_other [OF this, of v "fs(name a \<mapsto> v a)"]
    have "fold (\<lambda>i f. f(name i \<mapsto> v i)) sched (fs(name a \<mapsto> v a)) (name a) = Some (v a)"
      by simp
    moreover have "fold (\<lambda>i f. f(name i \<mapsto> v i)) (a # sched) fs =
        fold (\<lambda>i f. f(name i \<mapsto> v i)) sched (fs(name a \<mapsto> v a))"
      by (rule fold_simps(2))
    ultimately show ?thesis unfolding ia by (simp only:)
  qed
qed

lemma map_nth_upto: "map (\<lambda>i. xs ! nat i) [0 .. int (length xs) - 1] = xs"
  by (rule nth_equalityI) simp_all

lemma take_drop_split:
  "a \<le> b \<Longrightarrow> b \<le> e \<Longrightarrow>
   take (b - a) (drop a xs) @ take (e - b) (drop b xs) = take (e - a) (drop a xs)"
proof -
  assume ab: "a \<le> b" and be: "b \<le> e"
  have "take (e - a) (drop a xs) = take ((b - a) + (e - b)) (drop a xs)" using ab be by simp
  also have "\<dots> = take (b - a) (drop a xs) @ take (e - b) (drop (b - a) (drop a xs))"
    by (rule take_add)
  also have "drop (b - a) (drop a xs) = drop b xs" using ab by simp
  finally show ?thesis by simp
qed

lemma chained_segmentBytes:
  "chained s segs e \<Longrightarrow> 0 \<le> s \<Longrightarrow>
   concat (map (segmentBytes content) segs) = take (nat e - nat s) (drop (nat s) content)"
proof (induction segs arbitrary: s)
  case Nil
  then show ?case by simp
next
  case (Cons p ps)
  from Cons.prems have p: "fst p = s" "s \<le> snd p" "chained (snd p) ps e" by simp_all
  from chained_le [OF p(3)] have pe: "snd p \<le> e" .
  have "0 \<le> snd p" using p(2) Cons.prems(2) by simp
  from Cons.IH [OF p(3) this]
  have IH: "concat (map (segmentBytes content) ps) =
      take (nat e - nat (snd p)) (drop (nat (snd p)) content)" .
  have "segmentBytes content p = take (nat (snd p) - nat s) (drop (nat s) content)"
    by (simp add: segmentBytes_def p(1))
  then show ?case
    using take_drop_split [of "nat s" "nat (snd p)" "nat e" content] p(2) pe IH by simp
qed

lemma concat_map_concat:
  "concat (map (\<lambda>s. concat (map f (g s))) xs) = concat (map f (concat (map g xs)))"
  by (induction xs) simp_all

lemma partContent_concat:
  "concat (map (partContent encodeAll level content) segs) =
   concat (map (encodeAll level) (concat (map (\<lambda>seg. chunksOf (nat oneMB) (segmentBytes content seg)) segs)))"
  unfolding partContent_def by (rule concat_map_concat)

lemma all_chunks_nonempty:
  "c \<in> set (concat (map (\<lambda>seg. chunksOf (nat oneMB) (segmentBytes content seg)) segs)) \<Longrightarrow> c \<noteq> []"
  using chunksOf_nonempty by fastforce

lemma concat_all_chunks:
  assumes "chained 0 segs (int (length content))"
  shows "concat (concat (map (\<lambda>seg. chunksOf (nat oneMB) (segmentBytes content seg)) segs)) = content"
proof -
  have M: "0 < nat oneMB" by (simp add: oneMB_def)
  have "concat (concat (map (\<lambda>seg. chunksOf (nat oneMB) (segmentBytes content seg)) segs)) =
      concat (map (\<lambda>seg. concat (chunksOf (nat oneMB) (segmentBytes content seg))) segs)"
    by (induction segs) simp_all
  also have "\<dots> = concat (map (segmentBytes content) segs)"
    by (simp add: concat_chunksOf [OF M])
  also have "\<dots> = take (nat (int (length content)) - nat 0) (drop (nat 0) content)"
    using assms by (intro chained_segmentBytes) simp_all
  finally show ?thesis by simp
qed

lemma planned_schedule:
  assumes size: "int (length content) \<le> maxPlannedSize" and n: "1 \<le> numThreads"
    and plan: "divideFileIntoSegments (int (length content)) numThreads = Inr offset"
    and sched: "mset sched = mset [0 .. numThreads - 1]"
  shows "plannedFor content offset sched"
proof -
  from divideFileIntoSegments_length [of numThreads "int (length content)"] n plan
  have len: "length offset = nat numThreads" by auto
  have s: "set sched = {0 .. numThreads - 1}" using mset_eq_setD [OF sched] by simp
  show ?thesis
    unfolding plannedFor_def
  proof
    fix i assume "i \<in> set sched"
    with s have i: "0 \<le> i" "i < numThreads" by auto
    with len have "nat i < length offset" by simp
    then have "offset ! nat i \<in> set offset" by simp
    from planned_segment_inSegment [OF size n plan this] i len
    show "0 \<le> i \<and> i < int (length offset) \<and>
        inSegment content (snd (offset ! nat i)) (nat (fst (offset ! nat i)))" by simp
  qed
qed


section \<open>The orchestrator: the whole run\<close>

lemma map_filter_all_None: "\<forall>x \<in> set xs. f x = None \<Longrightarrow> List.map_filter f xs = []"
  by (induction xs) (simp_all add: List.map_filter_simps)

lemma map_filter_first_Some:
  assumes "\<forall>x \<in> set pre. f x = None" "f i = Some e"
  shows "\<exists>rest. List.map_filter f (pre @ i # post) = e # rest"
  using assms by (induction pre) (simp_all add: List.map_filter_simps)

lemma first_Some:
  assumes "\<exists>x \<in> set xs. f x \<noteq> None"
  shows "\<exists>pre i post e. xs = pre @ i # post \<and> (\<forall>j \<in> set pre. f j = None) \<and> f i = Some e"
proof -
  from assms have "\<exists>x \<in> set xs. f x \<noteq> None" .
  from split_list_first_prop [OF this] obtain pre i post where
    "xs = pre @ i # post" "f i \<noteq> None" "\<forall>j \<in> set pre. \<not> f j \<noteq> None"
    by blast
  then show ?thesis by auto
qed

lemma partKeys_set:
  "set (partKeys resolve inputFile numThreads) =
     (\<lambda>i. resolve (partName inputFile i)) ` {0 .. numThreads - 1}"
  by (simp add: partKeys_def)

lemma partKeys_member:
  "0 \<le> i \<Longrightarrow> i < numThreads \<Longrightarrow>
   resolve (partName inputFile i) \<in> set (partKeys resolve inputFile numThreads)"
  unfolding partKeys_set by (rule imageI) simp

lemma partKeys_inj:
  "distinct (partKeys resolve inputFile numThreads) \<Longrightarrow>
   inj_on (\<lambda>i. resolve (partName inputFile i)) {0 .. numThreads - 1}"
  by (simp add: partKeys_def distinct_map)

lemma schedule_set: "mset sched = mset [0 .. numThreads - 1] \<Longrightarrow> set sched = {0 .. numThreads - 1}"
  using mset_eq_setD [of sched "[0 .. numThreads - 1]"] by simp

lemma schedule_length:
  assumes "mset sched = mset [0 .. numThreads - 1]" "1 \<le> numThreads"
  shows "length sched = nat numThreads"
proof -
  from assms(1) have "length sched = length [0 .. numThreads - 1]" by (rule mset_eq_length)
  with assms(2) show ?thesis by simp
qed

lemma input_not_part:
  assumes "resolve inputFile \<notin> set (partKeys resolve inputFile numThreads)"
    and "set sched = {0 .. numThreads - 1}"
  shows "\<forall>i \<in> set sched. resolve (partName inputFile i) \<noteq> resolve inputFile"
proof
  fix i assume "i \<in> set sched"
  with assms(2) have "0 \<le> i" "i < numThreads" by simp_all
  from partKeys_member [OF this, of resolve inputFile] assms(1)
  show "resolve (partName inputFile i) \<noteq> resolve inputFile" by auto
qed

lemma compressFileBlock_worker_error:
  assumes fs: "fs (resolve inputFile) = Some content"
    and size: "int (length content) \<le> maxPlannedSize"
    and n: "1 \<le> numThreads"
    and plan: "divideFileIntoSegments (int (length content)) numThreads = Inr offset"
    and inp: "resolve inputFile \<notin> set (partKeys resolve inputFile numThreads)"
    and sched: "mset sched = mset [0 .. numThreads - 1]"
    and split: "sched = pre @ i # post"
    and pre: "\<forall>j \<in> set pre. workerError resolve encodeAll flt fs inputFile level offset j = None"
    and i: "workerError resolve encodeAll flt fs inputFile level offset i = Some e"
  shows "\<exists>fs'. compressFileBlock resolve encodeAll flt cflt sched fs inputFile outputFile level
              numThreads = (Panic SomeErrorsSeeAbove, fs', [e]) \<and>
          (\<forall>x. fs x \<noteq> None \<longrightarrow> fs' x \<noteq> None) \<and>
          (\<forall>j \<in> set sched. workerError resolve encodeAll flt fs inputFile level offset j = None \<longrightarrow>
             fs' (resolve (partName inputFile j)) \<noteq> None) \<and>
          e \<in> {OpenInputFailed inputFile, CreatePartFailed (partName inputFile i),
               CreateEncoderFailed, ReadInputFailed inputFile,
               WritePartFailed (partName inputFile i), GetOffsetFailed inputFile}"
proof -
  have pf: "plannedFor content offset sched" using planned_schedule [OF size n plan sched] .
  have na: "\<forall>i \<in> set sched. resolve (partName inputFile i) \<noteq> resolve inputFile"
    using input_not_part [OF inp schedule_set [OF sched]] .
  from runWorkers_general [of fs resolve inputFile content fs offset sched encodeAll flt level,
      OF fs fs pf na]
  obtain fs' names where
    run: "runWorkers resolve encodeAll flt inputFile level offset sched fs =
        (None, fs', names,
         List.map_filter (workerError resolve encodeAll flt fs inputFile level offset) sched)"
    and keep: "\<forall>x. fs x \<noteq> None \<longrightarrow> fs' x \<noteq> None"
    and parts: "\<forall>j \<in> set sched. workerError resolve encodeAll flt fs inputFile level offset j = None \<longrightarrow>
           fs' (resolve (partName inputFile j)) \<noteq> None"
    by blast
  from map_filter_first_Some [OF pre i, of post] obtain rest where
    errs: "List.map_filter (workerError resolve encodeAll flt fs inputFile level offset) sched = e # rest"
    unfolding split by blast
  have res: "compressFileBlock resolve encodeAll flt cflt sched fs inputFile outputFile level
      numThreads = (Panic SomeErrorsSeeAbove, fs', [e])"
    using fs plan n run errs by (simp add: compressFileBlock_def)
  from i have "fst (compressPart resolve encodeAll (flt i) fs inputFile i (offset ! nat i) level) = Err e"
    by (simp add: workerError_def split: outcome.splits)
  from compressPart_Err_forms [OF this]
  have form: "e \<in> {OpenInputFailed inputFile, CreatePartFailed (partName inputFile i),
               CreateEncoderFailed, ReadInputFailed inputFile,
               WritePartFailed (partName inputFile i), GetOffsetFailed inputFile}" .
  from res keep parts form show ?thesis by blast
qed

lemma compressFileBlock_concatenate_failure:
  assumes fs: "fs (resolve inputFile) = Some content"
    and size: "int (length content) \<le> maxPlannedSize"
    and n: "1 \<le> numThreads"
    and plan: "divideFileIntoSegments (int (length content)) numThreads = Inr offset"
    and inp: "resolve inputFile \<notin> set (partKeys resolve inputFile numThreads)"
    and sched: "mset sched = mset [0 .. numThreads - 1]"
    and fine: "\<forall>j \<in> set sched. workerError resolve encodeAll flt fs inputFile level offset j = None"
    and cflt: "failsWithin cflt (nat numThreads)"
  shows "\<exists>fs'. compressFileBlock resolve encodeAll flt cflt sched fs inputFile outputFile level
              numThreads = (Ok (), fs', []) \<and>
          (\<forall>x. fs x \<noteq> None \<longrightarrow> fs' x \<noteq> None) \<and>
          (\<forall>k \<in> set (partKeys resolve inputFile numThreads). fs' k \<noteq> None)"
proof -
  have pf: "plannedFor content offset sched" using planned_schedule [OF size n plan sched] .
  have s: "set sched = {0 .. numThreads - 1}" using schedule_set [OF sched] .
  have na: "\<forall>i \<in> set sched. resolve (partName inputFile i) \<noteq> resolve inputFile"
    using input_not_part [OF inp s] .
  from runWorkers_general [of fs resolve inputFile content fs offset sched encodeAll flt level,
      OF fs fs pf na]
  obtain fs1 names where
    run: "runWorkers resolve encodeAll flt inputFile level offset sched fs =
        (None, fs1, names,
         List.map_filter (workerError resolve encodeAll flt fs inputFile level offset) sched)"
    and len: "length names = length sched"
    and keep: "\<forall>x. fs x \<noteq> None \<longrightarrow> fs1 x \<noteq> None"
    and parts: "\<forall>j \<in> set sched. workerError resolve encodeAll flt fs inputFile level offset j = None \<longrightarrow>
           fs1 (resolve (partName inputFile j)) \<noteq> None"
    by blast
  have errs: "List.map_filter (workerError resolve encodeAll flt fs inputFile level offset) sched = []"
    using fine by (rule map_filter_all_None)
  define cf where "cf = concatenateFiles resolve cflt fs1 names outputFile"
  have "length names = nat numThreads" using len schedule_length [OF sched n] by simp
  with cflt have "failsWithin cflt (length names)" by simp
  then have failed: "fst cf \<noteq> Ok ()" unfolding cf_def by (rule concatenateFiles_fault_fails)
  have keep2: "fs1 x \<noteq> None \<Longrightarrow> snd cf x \<noteq> None" for x
    unfolding cf_def using failed [unfolded cf_def] by (rule concatenateFiles_failure_keeps_files)
  have res: "compressFileBlock resolve encodeAll flt cflt sched fs inputFile outputFile level
      numThreads = (Ok (), snd cf, [])"
    using fs plan n run errs by (cases cf) (simp add: compressFileBlock_def cf_def)
  have k1: "\<forall>x. fs x \<noteq> None \<longrightarrow> snd cf x \<noteq> None" using keep keep2 by blast
  have k2: "\<forall>k \<in> set (partKeys resolve inputFile numThreads). snd cf k \<noteq> None"
  proof
    fix k assume "k \<in> set (partKeys resolve inputFile numThreads)"
    then obtain j where j: "j \<in> {0 .. numThreads - 1}" and k: "k = resolve (partName inputFile j)"
      unfolding partKeys_set by blast
    from j s have js: "j \<in> set sched" by simp
    with fine parts have "fs1 (resolve (partName inputFile j)) \<noteq> None" by blast
    then show "snd cf k \<noteq> None" unfolding k by (rule keep2)
  qed
  from res k1 k2 show ?thesis by blast
qed

lemma compressFileBlock_NoFault:
  assumes fs: "fs (resolve inputFile) = Some content"
    and size: "int (length content) \<le> maxPlannedSize"
    and n: "1 \<le> numThreads" and n63: "numThreads \<le> 2 ^ 63"
    and base: "Base inputFile \<noteq> ''/''"
    and apart: "distinct (partKeys resolve inputFile numThreads)"
    and inp: "resolve inputFile \<notin> set (partKeys resolve inputFile numThreads)"
    and out: "resolve outputFile \<notin> set (partKeys resolve inputFile numThreads)"
    and sched: "mset sched = mset [0 .. numThreads - 1]"
  shows "\<exists>fs' offset.
      divideFileIntoSegments (int (length content)) numThreads = Inr offset \<and>
      chained 0 offset (int (length content)) \<and>
      compressFileBlock resolve encodeAll (\<lambda>i. NoFault) NoCFault sched fs inputFile outputFile level
        numThreads = (Ok (), fs', []) \<and>
      fs' (resolve outputFile) = Some (concat (map (partContent encodeAll level content) offset)) \<and>
      (\<forall>k \<in> set (partKeys resolve inputFile numThreads). fs' k = None) \<and>
      (\<forall>x. x \<noteq> resolve outputFile \<and> x \<notin> set (partKeys resolve inputFile numThreads) \<longrightarrow>
           fs' x = fs x)"
proof -
  have f0: "0 \<le> int (length content)" by simp
  from divideFileIntoSegments_plan [OF f0 size n] obtain offset where
    plan: "divideFileIntoSegments (int (length content)) numThreads = Inr offset"
    and len: "length offset = nat numThreads"
    and ch: "chained 0 offset (int (length content))"
    by blast
  define name where "name = partName inputFile"
  define key where "key = (\<lambda>i. resolve (partName inputFile i))"
  define v where "v = (\<lambda>i. partContent encodeAll level content (offset ! nat i))"
  define fs1 where "fs1 = fold (\<lambda>i f. f(key i \<mapsto> v i)) sched fs"
  define canon where "canon = map name [0 .. numThreads - 1]"
  define k where "k = (\<lambda>f. the (fileIndex f))"
  have keys: "set (partKeys resolve inputFile numThreads) = key ` {0 .. numThreads - 1}"
    unfolding key_def by (rule partKeys_set)
  have rk: "resolve (name i) = key i" for i by (simp add: name_def key_def)
  have pf: "plannedFor content offset sched" using planned_schedule [OF size n plan sched] .
  have s: "set sched = {0 .. numThreads - 1}" using schedule_set [OF sched] .
  have na: "\<forall>i \<in> set sched. resolve (partName inputFile i) \<noteq> resolve inputFile"
    using input_not_part [OF inp s] .
  have run: "runWorkers resolve encodeAll (\<lambda>i. NoFault) inputFile level offset sched fs =
      (None, fs1, map name sched, [])"
    using runWorkers_NoFault [of fs resolve inputFile content offset sched encodeAll level,
        OF fs pf na]
    by (simp add: fs1_def name_def key_def v_def)
  have rng: "0 \<le> i \<and> i < 2 ^ 63" if "i \<in> {0 .. numThreads - 1}" for i
    using that n63 by auto
  have idx: "fileIndex (name i) = Some i" if "i \<in> {0 .. numThreads - 1}" for i
    unfolding name_def using rng [OF that] base by (intro fileIndex_partName) simp_all
  have inj: "inj_on key {0 .. numThreads - 1}"
    unfolding key_def using apart by (rule partKeys_inj)
  have fs1_part: "fs1 (key i) = Some (v i)" if "i \<in> {0 .. numThreads - 1}" for i
    unfolding fs1_def using inj that s by (intro fold_upd_in) simp_all
  have fs1_other: "fs1 x = fs x" if "x \<notin> key ` {0 .. numThreads - 1}" for x
    unfolding fs1_def using that s by (intro fold_upd_other) simp
  have c1: "\<forall>f \<in> set (map name sched). fileIndex f \<noteq> None" using idx s by auto
  have c2: "\<forall>f \<in> set (map name sched). fs1 (resolve f) \<noteq> None"
    using fs1_part s by (auto simp: rk)
  have "resolve ` set (map name sched) = key ` set sched"
    by (simp add: image_image rk)
  then have "resolve ` set (map name sched) = key ` {0 .. numThreads - 1}"
    unfolding s .
  with out keys have c3: "resolve outputFile \<notin> resolve ` set (map name sched)"
    by (simp only: not_False_eq_True)
  have kc: "map k canon = [0 .. numThreads - 1]"
    unfolding canon_def map_map by (rule map_idI) (simp add: k_def idx)
  have "mset (map name sched) = mset canon"
    unfolding canon_def using sched by (metis mset_map)
  moreover have "distinct (map k canon)" unfolding kc by simp
  ultimately have "sort_key k (map name sched) = sort_key k canon"
    by (rule sort_key_perm_unique)
  moreover have "sort_key k canon = canon"
    by (rule sort_key_id_if_sorted) (simp add: kc)
  ultimately have ordered: "sort_key (\<lambda>f. the (fileIndex f)) (map name sched) = canon"
    by (simp add: k_def)
  have "map (\<lambda>f. the (fs1 (resolve f))) canon = map v [0 .. numThreads - 1]"
    unfolding canon_def map_map by (rule map_cong [OF refl]) (simp add: fs1_part rk)
  also have "\<dots> = map (partContent encodeAll level content) (map (\<lambda>i. offset ! nat i) [0 .. numThreads - 1])"
    by (simp add: v_def comp_def)
  also have "map (\<lambda>i. offset ! nat i) [0 .. numThreads - 1] = offset"
    using map_nth_upto [of offset] len n by simp
  finally have contents: "map (\<lambda>f. the (fs1 (resolve f))) canon =
      map (partContent encodeAll level content) offset" .
  define fs' where "fs' = removeFiles resolve (map withIndex canon)
      (fs1(resolve outputFile \<mapsto> concat (map (partContent encodeAll level content) offset)))"
  have cf: "concatenateFiles resolve NoCFault fs1 (map name sched) outputFile = (Ok (), fs')"
    unfolding concatenateFiles_ok [OF c1 c2 c3] ordered contents fs'_def ..
  have "map (\<lambda>file. resolve (Name file)) (map withIndex canon) = map key [0 .. numThreads - 1]"
    by (simp add: withIndex_def comp_def canon_def rk)
  then have "set (map (\<lambda>file. resolve (Name file)) (map withIndex canon)) =
      set (map key [0 .. numThreads - 1])" by (simp only:)
  then have removed: "(\<lambda>file. resolve (Name file)) ` set (map withIndex canon) =
      key ` {0 .. numThreads - 1}"
    by (simp only: set_map set_upto)
  have o: "resolve outputFile \<notin> key ` {0 .. numThreads - 1}" using out keys by simp
  have r1: "fs' (resolve outputFile) = Some (concat (map (partContent encodeAll level content) offset))"
    unfolding fs'_def removeFiles_apply removed using o by simp
  have r2: "\<forall>x \<in> set (partKeys resolve inputFile numThreads). fs' x = None"
    unfolding keys fs'_def removeFiles_apply removed by simp
  have r3: "\<forall>x. x \<noteq> resolve outputFile \<and> x \<notin> set (partKeys resolve inputFile numThreads) \<longrightarrow>
      fs' x = fs x"
    unfolding keys fs'_def removeFiles_apply removed using fs1_other by simp
  have "compressFileBlock resolve encodeAll (\<lambda>i. NoFault) NoCFault sched fs inputFile outputFile
      level numThreads = (Ok (), fs', [])"
    using fs plan n run cf by (simp add: compressFileBlock_def name_def)
  with plan ch r1 r2 r3 show ?thesis by blast
qed

section \<open>The orchestrator: the claims\<close>

lemma toyDecodeStream_frame:
  "toyDecodeStream (toyEncodeAll level src @ rest) = map_option ((@) src) (toyDecodeStream rest)"
proof (induction src)
  case Nil
  show ?case by (cases rest) (simp_all add: toyEncodeAll_def option.map_ident)
next
  case (Cons b src)
  have "toyEncodeAll level (b # src) @ rest = 1 # b # (toyEncodeAll level src @ rest)"
    by (simp add: toyEncodeAll_def)
  then show ?case using Cons by (simp add: option.map_comp comp_def)
qed

lemma toy_codec_frames:
  "toyDecodeStream (concat (map (toyEncodeAll level) chunks)) = Some (concat chunks)"
  by (induction chunks) (simp_all add: toyDecodeStream_frame)

lemma partName_length: "21 < length (partName inputFile i)"
  using fmt_d_nonempty [of i] Base_nonempty [of inputFile]
  by (cases "fmt_d i"; cases "Base inputFile") (simp_all add: partName_def)

lemma Base_in: "Base ''in'' = ''in''"
  by code_simp

lemma upto_0_3: "[0 .. 3] = [0, 1, 2, 3 :: int]"
  by code_simp

lemma plan_3_bytes_4_threads:
  "divideFileIntoSegments (int (length [1, 2, 3 :: byte])) 4 = Inr [(0, 3), (3, 3), (3, 3), (3, 3)]"
  by code_simp

lemma out_not_part: "''out'' \<noteq> partName inputFile i"
proof
  assume "''out'' = partName inputFile i"
  then have "length ''out'' = length (partName inputFile i)" by (rule arg_cong)
  with partName_length [of inputFile i] show False by simp
qed

lemma partKeys_stripDotSlash:
  "Base inputFile \<noteq> ''/'' \<Longrightarrow>
   partKeys stripDotSlash inputFile numThreads = map (partName inputFile) [0 .. numThreads - 1]"
  by (simp add: partKeys_def stripDotSlash_partName)

lemma example_files_apart:
  assumes "numThreads \<le> 2 ^ 63"
  shows "distinct (partKeys stripDotSlash ''in'' numThreads)"
    and "stripDotSlash ''in'' \<notin> set (partKeys stripDotSlash ''in'' numThreads)"
    and "stripDotSlash ''out'' \<notin> set (partKeys stripDotSlash ''in'' numThreads)"
    and "stripDotSlash ''./out'' \<notin> set (partKeys stripDotSlash ''in'' numThreads)"
proof -
  have base: "Base ''in'' \<noteq> ''/''" by (simp add: Base_in)
  note keys = partKeys_stripDotSlash [OF base]
  have "inj_on (partName ''in'') (set [0 .. numThreads - 1])"
  proof (rule inj_onI)
    fix i j assume "i \<in> set [0 .. numThreads - 1]" "j \<in> set [0 .. numThreads - 1]"
      and eq: "partName ''in'' i = partName ''in'' j"
    with assms have "0 \<le> i" "i < 2 ^ 63" "0 \<le> j" "j < 2 ^ 63" by auto
    from partName_inj [OF this base eq] show "i = j" .
  qed
  then show "distinct (partKeys stripDotSlash ''in'' numThreads)"
    unfolding keys by (simp add: distinct_map)
  have ne: "''in'' \<noteq> partName ''in'' i" for i
    using partName_neq_input [of "''in''" i] by (rule not_sym)
  show "stripDotSlash ''in'' \<notin> set (partKeys stripDotSlash ''in'' numThreads)"
    unfolding keys using ne by auto
  show "stripDotSlash ''out'' \<notin> set (partKeys stripDotSlash ''in'' numThreads)"
    unfolding keys using out_not_part [of "''in''"] by auto
  show "stripDotSlash ''./out'' \<notin> set (partKeys stripDotSlash ''in'' numThreads)"
    unfolding keys using out_not_part [of "''in''"] by auto
qed

lemma workerError_NoFault:
  assumes "flt i = NoFault" "fs (resolve inputFile) = Some content"
    and "resolve (partName inputFile i) \<noteq> resolve inputFile"
    and "inSegment content (snd (offset ! nat i)) (nat (fst (offset ! nat i)))"
  shows "workerError resolve encodeAll flt fs inputFile level offset i = None"
  using compressPart_reads_segment [of fs resolve inputFile content i "offset ! nat i" encodeAll level]
    assms
  by (simp add: workerError_def)

lemma workerError_ReadFails_0:
  assumes "flt i = ReadFails 0" "fs (resolve inputFile) = Some content"
  shows "workerError resolve encodeAll flt fs inputFile level offset i =
           Some (ReadInputFailed inputFile)"
proof -
  have "readLoop (encodeAll level) (ReadFails 0) inputFile (partName inputFile i) c
      (snd (offset ! nat i)) 0 (nat (fst (offset ! nat i))) [] =
      (Err (ReadInputFailed inputFile), [])" for c
    by (subst readLoop_unfold) simp
  then show ?thesis using assms by (simp add: workerError_def compressPart_def Let_def)
qed

lemma three_bytes_workers_fine:
  assumes "0 \<le> i" "i < 4"
  shows "inSegment [1, 2, 3 :: byte] (snd ([(0 :: int, 3 :: int), (3, 3), (3, 3), (3, 3)] ! nat i))
           (nat (fst ([(0 :: int, 3 :: int), (3, 3), (3, 3), (3, 3)] ! nat i)))"
proof -
  have sched: "mset [0, 1, 2, 3] = mset [0 .. 4 - (1::int)]" by (simp add: upto_0_3)
  have size: "int (length [1, 2, 3 :: byte]) \<le> maxPlannedSize" by (simp add: maxPlannedSize_def)
  have n: "(1 :: int) \<le> 4" by simp
  have pf: "plannedFor [1, 2, 3] [(0, 3), (3, 3), (3, 3), (3, 3)] [0, 1, 2, 3]"
    by (rule planned_schedule [OF size n plan_3_bytes_4_threads sched])
  from assms have "i = 0 \<or> i = 1 \<or> i = 2 \<or> i = 3" by linarith
  then have mem: "i \<in> set [0, 1, 2, 3 :: int]" by auto
  from bspec [OF pf [unfolded plannedFor_def] mem] show ?thesis by blast
qed

lemma example_worker_fine:
  assumes "0 \<le> j" "j < 4" "flt j = NoFault"
  shows "workerError stripDotSlash toyEncodeAll flt [''in'' \<mapsto> [1, 2, 3]] ''in'' 3
           [(0, 3), (3, 3), (3, 3), (3, 3)] j = None"
proof (rule workerError_NoFault [where content = "[1, 2, 3]"])
  show "flt j = NoFault" by (fact assms(3))
  show "[''in'' \<mapsto> [1, 2, 3 :: byte]] (stripDotSlash ''in'') = Some [1, 2, 3]" by simp
  have "partName ''in'' j \<noteq> ''in''" by (rule partName_neq_input)
  then show "stripDotSlash (partName ''in'' j) \<noteq> stripDotSlash ''in''"
    by (simp add: stripDotSlash_partName Base_in)
  show "inSegment [1, 2, 3 :: byte] (snd ([(0 :: int, 3 :: int), (3, 3), (3, 3), (3, 3)] ! nat j))
      (nat (fst ([(0 :: int, 3 :: int), (3, 3), (3, 3), (3, 3)] ! nat j)))"
    using three_bytes_workers_fine [OF assms(1,2)] .
qed

lemma example_worker_fails:
  assumes "flt j = ReadFails 0"
  shows "workerError stripDotSlash toyEncodeAll flt [''in'' \<mapsto> [1, 2, 3]] ''in'' 3
           [(0, 3), (3, 3), (3, 3), (3, 3)] j = Some (ReadInputFailed ''in'')"
  by (rule workerError_ReadFails_0 [where content = "[1, 2, 3]"]) (use assms in simp_all)

lemma one_failing_worker_of_four:
  assumes k: "k \<in> {1, 2}"
  shows "\<exists>fs'. compressFileBlock stripDotSlash toyEncodeAll (\<lambda>i. if i = k then ReadFails 0 else NoFault)
            NoCFault [0, 1, 2, 3] [''in'' \<mapsto> [1, 2, 3]] ''in'' ''out'' 3 4 =
            (Panic SomeErrorsSeeAbove, fs', [ReadInputFailed ''in'']) \<and>
          fs' (stripDotSlash (partName ''in'' 0)) \<noteq> None"
proof -
  let ?flt = "\<lambda>i. if i = k then ReadFails 0 else NoFault"
  let ?fs = "[''in'' \<mapsto> [1, 2, 3 :: byte]]"
  let ?offset = "[(0, 3), (3, 3), (3, 3), (3, 3 :: int)]"
  have fs: "?fs (stripDotSlash ''in'') = Some [1, 2, 3]" by simp
  have size: "int (length [1, 2, 3 :: byte]) \<le> maxPlannedSize" by (simp add: maxPlannedSize_def)
  have n: "(1 :: int) \<le> 4" by simp
  have inp: "stripDotSlash ''in'' \<notin> set (partKeys stripDotSlash ''in'' 4)"
    by (rule example_files_apart) simp
  have sched: "mset [0, 1, 2, 3] = mset [0 .. 4 - (1::int)]" by (simp add: upto_0_3)
  have ok: "workerError stripDotSlash toyEncodeAll ?flt ?fs ''in'' 3 ?offset j = None"
    if "0 \<le> j" "j < 4" "j \<noteq> k" for j
    using that by (intro example_worker_fine) simp_all
  have bad: "workerError stripDotSlash toyEncodeAll ?flt ?fs ''in'' 3 ?offset k =
      Some (ReadInputFailed ''in'')"
    by (rule example_worker_fails) simp
  obtain pre post where split: "[0, 1, 2, 3] = pre @ k # post" and pre: "set pre \<subseteq> {0 ..< k}"
  proof (cases "k = 1")
    case True
    then have "[0, 1, 2, 3] = [0] @ k # [2, 3]" "set [0] \<subseteq> {0 ..< k}" by simp_all
    then show ?thesis by (rule that)
  next
    case False
    with k have "k = 2" by simp
    then have "[0, 1, 2, 3] = [0, 1] @ k # [3]" "set [0, 1] \<subseteq> {0 ..< k}" by simp_all
    then show ?thesis by (rule that)
  qed
  have pre_ok: "\<forall>j \<in> set pre. workerError stripDotSlash toyEncodeAll ?flt ?fs ''in'' 3 ?offset j = None"
  proof
    fix j assume "j \<in> set pre"
    with pre k have "0 \<le> j" "j < 4" "j \<noteq> k" by auto
    then show "workerError stripDotSlash toyEncodeAll ?flt ?fs ''in'' 3 ?offset j = None" by (rule ok)
  qed
  from compressFileBlock_worker_error [where fs = ?fs and resolve = stripDotSlash
      and inputFile = "''in''" and content = "[1, 2, 3]" and numThreads = 4 and offset = ?offset
      and sched = "[0, 1, 2, 3]" and pre = pre and i = k and post = post
      and encodeAll = toyEncodeAll and flt = ?flt and level = 3 and e = "ReadInputFailed ''in''"
      and cflt = NoCFault and outputFile = "''out''",
      OF fs size n plan_3_bytes_4_threads inp sched split pre_ok bad]
  obtain fs' where
    run: "compressFileBlock stripDotSlash toyEncodeAll ?flt NoCFault [0, 1, 2, 3] ?fs ''in'' ''out'' 3 4 =
            (Panic SomeErrorsSeeAbove, fs', [ReadInputFailed ''in''])"
    and parts: "\<forall>j \<in> set [0, 1, 2, 3].
             workerError stripDotSlash toyEncodeAll ?flt ?fs ''in'' 3 ?offset j = None \<longrightarrow>
             fs' (stripDotSlash (partName ''in'' j)) \<noteq> None"
    by (elim exE conjE)
  have "workerError stripDotSlash toyEncodeAll ?flt ?fs ''in'' 3 ?offset 0 = None"
    using k by (intro ok) auto
  with parts have "fs' (stripDotSlash (partName ''in'' 0)) \<noteq> None" by simp
  with run show ?thesis by blast
qed

lemma huge_file_run_panics:
  "fst (compressFileBlock stripDotSlash toyEncodeAll (\<lambda>i. NoFault) NoCFault [0]
          [''in'' \<mapsto> replicate 9223372036854775807 0] ''in'' ''out'' 3 1) = Panic ReadOverEndOffset \<and>
   fst (snd (compressFileBlock stripDotSlash toyEncodeAll (\<lambda>i. NoFault) NoCFault [0]
          [''in'' \<mapsto> replicate 9223372036854775807 0] ''in'' ''out'' 3 1)) (stripDotSlash ''out'') = None"
proof -
  let ?fs = "[''in'' \<mapsto> replicate 9223372036854775807 (0 :: byte)]"
  define cp where
    "cp = compressPart stripDotSlash toyEncodeAll NoFault ?fs ''in'' 0 (0, 2 ^ 20 - 2 ^ 63) 3"
  have fs: "?fs (stripDotSlash ''in'') = Some (replicate 9223372036854775807 0)" by simp
  have na: "stripDotSlash (partName ''in'' 0) \<noteq> stripDotSlash ''in''"
    by (simp add: partName_in_0)
  have p: "fst cp = Panic ReadOverEndOffset"
    unfolding cp_def using fs na by (rule compressPart_huge_file_panics)
  have "stripDotSlash ''out'' \<noteq> stripDotSlash (partName ''in'' 0)"
    by (simp add: partName_in_0)
  from compressPart_frame [where x = "stripDotSlash ''out''" and resolve = stripDotSlash
      and inputFile = "''in''" and i = 0 and fs = ?fs, OF this]
  have o: "snd cp (stripDotSlash ''out'') = None"
    unfolding cp_def by simp
  have run: "runWorkers stripDotSlash toyEncodeAll (\<lambda>i. NoFault) ''in'' 3 [(0, 2 ^ 20 - 2 ^ 63)] [0] ?fs =
      (Some ReadOverEndOffset, snd cp, [], [])"
    using p by (cases cp) (simp add: cp_def)
  have "compressFileBlock stripDotSlash toyEncodeAll (\<lambda>i. NoFault) NoCFault [0] ?fs ''in'' ''out'' 3 1 =
      (Panic ReadOverEndOffset, snd cp, [])"
    unfolding compressFileBlock_def using plan_huge_file run by simp
  with o show ?thesis by simp
qed

text \<open>
  Let the codec be concatenation-safe at the given level: a sequence of frames, each
  encoded from a non-empty block, decodes to the blocks joined together.  Then for every
  input file content \<open>X\<close> of at most \<open>2^63 - 2^20\<close> bytes (including the empty content),
  every thread count of at least 1 (including more threads than MiB units) and every
  order in which the workers finish, the block-mode pipeline with no failing call
  returns without error, and decompressing the output file yields exactly \<open>X\<close>.  The part
  files are different files, none of them the input or the output file, and the input
  path does not consist of slashes only.
\<close>

lemma compressFileBlock_roundtrip:
  assumes "\<forall>chunks. (\<forall>c \<in> set chunks. c \<noteq> []) \<longrightarrow>
             decodeStream (concat (map (encodeAll level) chunks)) = Some (concat chunks)"
    and "fs (resolve inputFile) = Some X"
    and "int (length X) \<le> maxPlannedSize"
    and "1 \<le> numThreads" and "numThreads < 2 ^ 63"
    and "Base inputFile \<noteq> ''/''"
    and "distinct (partKeys resolve inputFile numThreads)"
    and "resolve inputFile \<notin> set (partKeys resolve inputFile numThreads)"
    and "resolve outputFile \<notin> set (partKeys resolve inputFile numThreads)"
    and "mset sched = mset [0 .. numThreads - 1]"
  shows "\<exists>fs' compressed.
           compressFileBlock resolve encodeAll (\<lambda>i. NoFault) NoCFault sched fs inputFile outputFile
             level numThreads = (Ok (), fs', []) \<and>
           fs' (resolve outputFile) = Some compressed \<and>
           decompressFile decodeStream compressed = Ok X"
proof -
  from assms(5) have n63: "numThreads \<le> 2 ^ 63" by simp
  from compressFileBlock_NoFault [where fs = fs and resolve = resolve and inputFile = inputFile
      and content = X and numThreads = numThreads and outputFile = outputFile and sched = sched
      and encodeAll = encodeAll and level = level,
      OF assms(2,3,4) n63 assms(6,7,8,9,10)]
  obtain fs' offset where
    ch: "chained 0 offset (int (length X))"
    and run: "compressFileBlock resolve encodeAll (\<lambda>i. NoFault) NoCFault sched fs inputFile outputFile
        level numThreads = (Ok (), fs', [])"
    and out: "fs' (resolve outputFile) = Some (concat (map (partContent encodeAll level X) offset))"
    by blast
  define chunks where
    "chunks = concat (map (\<lambda>seg. chunksOf (nat oneMB) (segmentBytes X seg)) offset)"
  have "\<forall>c \<in> set chunks. c \<noteq> []" unfolding chunks_def using all_chunks_nonempty by blast
  with assms(1) have "decodeStream (concat (map (encodeAll level) chunks)) = Some (concat chunks)"
    by blast
  moreover have "concat chunks = X" unfolding chunks_def using ch by (rule concat_all_chunks)
  moreover have "concat (map (partContent encodeAll level X) offset) =
      concat (map (encodeAll level) chunks)"
    unfolding chunks_def by (rule partContent_concat)
  ultimately have "decompressFile decodeStream (concat (map (partContent encodeAll level X) offset)) = Ok X"
    by (simp add: decompressFile_def)
  with run out show ?thesis by blast
qed

text \<open>
  Claim C1.  Decompressing the output of the pipeline is to yield the input, for every
  input.  For an input of \<open>2^63 - 1\<close> bytes and one worker it does not: the planner's
  rounding wraps around, the worker panics with \<^verbatim>\<open>I read over the endOffset\<close> after its
  first read, and no output file is written that could be decompressed.
\<close>

theorem compressFileBlock_overflow_no_output:
  "fst (compressFileBlock stripDotSlash toyEncodeAll (\<lambda>i. NoFault) NoCFault [0]
          [''in'' \<mapsto> replicate 9223372036854775807 0] ''in'' ''out'' 3 1) = Panic ReadOverEndOffset \<and>
   fst (snd (compressFileBlock stripDotSlash toyEncodeAll (\<lambda>i. NoFault) NoCFault [0]
          [''in'' \<mapsto> replicate 9223372036854775807 0] ''in'' ''out'' 3 1)) (stripDotSlash ''out'') = None"
  by (rule huge_file_run_panics)

text \<open>
  Claim C8, as amended.  Whenever a worker fails, that is, returns an error, the
  block-mode pipeline does not return to its caller: once all workers have finished it
  prints the error of the worker that failed first in the order of completion and panics
  with the fixed message \<^verbatim>\<open>[ERROR] some errors see above\<close>, which carries neither the
  error nor a segment index.  The printed error is one of the six errors of
  \<^verbatim>\<open>compressPart\<close>: it names the part file of the failed worker, whose name begins and
  ends with the segment index, when creating or writing that file failed, and it names
  the input file only, or no file, when opening, reading or seeking the input or creating
  the encoder failed.  (The input file has at most \<open>2^63 - 2^20\<close> bytes, there is at least
  one thread, and the part files are different files, none of them the input file.)
\<close>

theorem compressFileBlock_worker_failure_panics:
  assumes "fs (resolve inputFile) = Some content"
    and "int (length content) \<le> maxPlannedSize"
    and "1 \<le> numThreads"
    and "divideFileIntoSegments (int (length content)) numThreads = Inr offset"
    and "distinct (partKeys resolve inputFile numThreads)"
    and "resolve inputFile \<notin> set (partKeys resolve inputFile numThreads)"
    and "mset sched = mset [0 .. numThreads - 1]"
    and "sched = pre @ i # post"
    and "\<forall>j \<in> set pre. workerError resolve encodeAll flt fs inputFile level offset j = None"
    and "workerError resolve encodeAll flt fs inputFile level offset i = Some e"
  shows "\<exists>fs'. compressFileBlock resolve encodeAll flt cflt sched fs inputFile outputFile level
              numThreads = (Panic SomeErrorsSeeAbove, fs', [e]) \<and>
           e \<in> {OpenInputFailed inputFile, CreatePartFailed (partName inputFile i),
                CreateEncoderFailed, ReadInputFailed inputFile,
                WritePartFailed (partName inputFile i), GetOffsetFailed inputFile}"
  using compressFileBlock_worker_error [where fs = fs and resolve = resolve
      and inputFile = inputFile and content = content and numThreads = numThreads
      and offset = offset and sched = sched and pre = pre and i = i and post = post
      and encodeAll = encodeAll and flt = flt and level = level and e = e and cflt = cflt
      and outputFile = outputFile, OF assms(1,2,3,4,6,7,8,9,10)]
  by blast

theorem compressFileBlock_worker_failure_panics_witness:
  "[''in'' \<mapsto> [1, 2, 3 :: byte]] (stripDotSlash ''in'') = Some [1, 2, 3] \<and>
   int (length [1, 2, 3 :: byte]) \<le> maxPlannedSize \<and> (1 :: int) \<le> 4 \<and>
   divideFileIntoSegments (int (length [1, 2, 3 :: byte])) 4 = Inr [(0, 3), (3, 3), (3, 3), (3, 3)] \<and>
   distinct (partKeys stripDotSlash ''in'' 4) \<and>
   stripDotSlash ''in'' \<notin> set (partKeys stripDotSlash ''in'' 4) \<and>
   mset [1, 0, 2, 3] = mset [0 .. 4 - (1 :: int)] \<and>
   [1, 0, 2, 3] = [1] @ 0 # [2, 3 :: int] \<and>
   workerError stripDotSlash toyEncodeAll (\<lambda>i. if i = 0 then CreateFails else NoFault)
     [''in'' \<mapsto> [1, 2, 3]] ''in'' 3 [(0, 3), (3, 3), (3, 3), (3, 3)] 1 = None \<and>
   workerError stripDotSlash toyEncodeAll (\<lambda>i. if i = 0 then CreateFails else NoFault)
     [''in'' \<mapsto> [1, 2, 3]] ''in'' 3 [(0, 3), (3, 3), (3, 3), (3, 3)] 0 =
     Some (CreatePartFailed ''0-in-output-segment.part0'') \<and>
   (\<exists>fs'. compressFileBlock stripDotSlash toyEncodeAll (\<lambda>i. if i = 0 then CreateFails else NoFault)
            NoCFault [1, 0, 2, 3] [''in'' \<mapsto> [1, 2, 3]] ''in'' ''out'' 3 4 =
            (Panic SomeErrorsSeeAbove, fs', [CreatePartFailed ''0-in-output-segment.part0'']))"
proof -
  let ?flt = "\<lambda>i :: int. if i = 0 then CreateFails else NoFault"
  let ?fs = "[''in'' \<mapsto> [1, 2, 3 :: byte]]"
  let ?e = "CreatePartFailed ''0-in-output-segment.part0''"
  have fs: "?fs (stripDotSlash ''in'') = Some [1, 2, 3]" by simp
  have size: "int (length [1, 2, 3 :: byte]) \<le> maxPlannedSize" by (simp add: maxPlannedSize_def)
  have n: "(1 :: int) \<le> 4" by simp
  have apart: "distinct (partKeys stripDotSlash ''in'' 4)"
    and inp: "stripDotSlash ''in'' \<notin> set (partKeys stripDotSlash ''in'' 4)"
    by (rule example_files_apart; simp)+
  have sched: "mset [1, 0, 2, 3] = mset [0 .. 4 - (1 :: int)]" by (simp add: upto_0_3)
  have split: "[1, 0, 2, 3] = [1] @ 0 # [2, 3 :: int]" by simp
  have w1: "workerError stripDotSlash toyEncodeAll ?flt ?fs ''in'' 3 [(0, 3), (3, 3), (3, 3), (3, 3)] 1 = None"
    by (rule example_worker_fine) simp_all
  then have pre: "\<forall>j \<in> set [1]. workerError stripDotSlash toyEncodeAll ?flt ?fs ''in'' 3
      [(0, 3), (3, 3), (3, 3), (3, 3)] j = None" by simp
  have w0: "workerError stripDotSlash toyEncodeAll ?flt ?fs ''in'' 3 [(0, 3), (3, 3), (3, 3), (3, 3)] 0 =
      Some ?e"
    by (simp add: workerError_def compressPart_def partName_in_0)
  from compressFileBlock_worker_failure_panics [where fs = ?fs and resolve = stripDotSlash
      and inputFile = "''in''" and content = "[1, 2, 3]" and numThreads = 4
      and offset = "[(0, 3), (3, 3), (3, 3), (3, 3)]" and sched = "[1, 0, 2, 3]" and pre = "[1]"
      and i = 0 and post = "[2, 3]" and encodeAll = toyEncodeAll and flt = ?flt and level = 3
      and e = ?e and cflt = NoCFault and outputFile = "''out''",
      OF fs size n plan_3_bytes_4_threads apart inp sched split pre w0]
  have concl: "\<exists>fs'. compressFileBlock stripDotSlash toyEncodeAll ?flt NoCFault [1, 0, 2, 3] ?fs
      ''in'' ''out'' 3 4 = (Panic SomeErrorsSeeAbove, fs', [?e])"
    by blast
  show ?thesis
    by (intro conjI) (rule fs size n plan_3_bytes_4_threads apart inp sched split w1 w0 concl)+
qed

text \<open>
  Claim C8 as stated fails: a read failure in segment 2 of a four-segment plan and a read
  failure in segment 1 end in the same panic after printing the same error, which names
  the input file, so what the caller gets does not tell the responsible segment, and it
  is not a returned result.
\<close>

theorem compressFileBlock_worker_failure_counterexample:
  "fst (compressFileBlock stripDotSlash toyEncodeAll (\<lambda>i. if i = 2 then ReadFails 0 else NoFault)
          NoCFault [0, 1, 2, 3] [''in'' \<mapsto> [1, 2, 3]] ''in'' ''out'' 3 4) = Panic SomeErrorsSeeAbove \<and>
   snd (snd (compressFileBlock stripDotSlash toyEncodeAll (\<lambda>i. if i = 2 then ReadFails 0 else NoFault)
          NoCFault [0, 1, 2, 3] [''in'' \<mapsto> [1, 2, 3]] ''in'' ''out'' 3 4)) = [ReadInputFailed ''in''] \<and>
   fst (compressFileBlock stripDotSlash toyEncodeAll (\<lambda>i. if i = 1 then ReadFails 0 else NoFault)
          NoCFault [0, 1, 2, 3] [''in'' \<mapsto> [1, 2, 3]] ''in'' ''out'' 3 4) = Panic SomeErrorsSeeAbove \<and>
   snd (snd (compressFileBlock stripDotSlash toyEncodeAll (\<lambda>i. if i = 1 then ReadFails 0 else NoFault)
          NoCFault [0, 1, 2, 3] [''in'' \<mapsto> [1, 2, 3]] ''in'' ''out'' 3 4)) = [ReadInputFailed ''in'']"
  using one_failing_worker_of_four [of 2] one_failing_worker_of_four [of 1]
  by auto

text \<open>
  Claim C9, as amended.  The part files are removed on the success path only.  When no
  call fails, every part file has been removed when the pipeline returns, and apart from
  the part files and the output file no file has changed.  On a failure path no file is
  removed: when a worker returns an error, the pipeline panics and the part file of every
  worker that completed is left behind; when the workers complete and the reassembly
  fails (creating the output file, or reading or writing in a copy), the pipeline still
  returns without error and every part file is left behind.  (The input has at most
  \<open>2^63 - 2^20\<close> bytes, its path is not made of slashes only, and the part files are
  different files, none of them the input or the output file.)
\<close>

theorem compressFileBlock_removes_parts:
  assumes "fs (resolve inputFile) = Some content"
    and "int (length content) \<le> maxPlannedSize"
    and "1 \<le> numThreads" and "numThreads < 2 ^ 63"
    and "Base inputFile \<noteq> ''/''"
    and "distinct (partKeys resolve inputFile numThreads)"
    and "resolve inputFile \<notin> set (partKeys resolve inputFile numThreads)"
    and "resolve outputFile \<notin> set (partKeys resolve inputFile numThreads)"
    and "divideFileIntoSegments (int (length content)) numThreads = Inr offset"
    and "mset sched = mset [0 .. numThreads - 1]"
  shows "(\<exists>fs'. compressFileBlock resolve encodeAll (\<lambda>i. NoFault) NoCFault sched fs inputFile outputFile
              level numThreads = (Ok (), fs', []) \<and>
            (\<forall>k \<in> set (partKeys resolve inputFile numThreads). fs' k = None) \<and>
            (\<forall>x. x \<noteq> resolve outputFile \<and> x \<notin> set (partKeys resolve inputFile numThreads) \<longrightarrow>
                 fs' x = fs x)) \<and>
         ((\<exists>i \<in> set sched. workerError resolve encodeAll flt fs inputFile level offset i \<noteq> None) \<longrightarrow>
            (\<exists>fs' printed.
               compressFileBlock resolve encodeAll flt cflt sched fs inputFile outputFile level
                 numThreads = (Panic SomeErrorsSeeAbove, fs', printed) \<and>
               (\<forall>x. fs x \<noteq> None \<longrightarrow> fs' x \<noteq> None) \<and>
               (\<forall>j \<in> set sched.
                  workerError resolve encodeAll flt fs inputFile level offset j = None \<longrightarrow>
                  fs' (resolve (partName inputFile j)) \<noteq> None))) \<and>
         ((\<forall>i \<in> set sched. workerError resolve encodeAll flt fs inputFile level offset i = None) \<and>
          failsWithin cflt (nat numThreads) \<longrightarrow>
            (\<exists>fs'. compressFileBlock resolve encodeAll flt cflt sched fs inputFile outputFile level
                 numThreads = (Ok (), fs', []) \<and>
               (\<forall>x. fs x \<noteq> None \<longrightarrow> fs' x \<noteq> None) \<and>
               (\<forall>k \<in> set (partKeys resolve inputFile numThreads). fs' k \<noteq> None)))"
proof (intro conjI impI)
  from assms(4) have n63: "numThreads \<le> 2 ^ 63" by simp
  from compressFileBlock_NoFault [where fs = fs and resolve = resolve and inputFile = inputFile
      and content = content and numThreads = numThreads and outputFile = outputFile
      and sched = sched and encodeAll = encodeAll and level = level,
      OF assms(1,2,3) n63 assms(5,6,7,8,10)]
  show "\<exists>fs'. compressFileBlock resolve encodeAll (\<lambda>i. NoFault) NoCFault sched fs inputFile outputFile
              level numThreads = (Ok (), fs', []) \<and>
            (\<forall>k \<in> set (partKeys resolve inputFile numThreads). fs' k = None) \<and>
            (\<forall>x. x \<noteq> resolve outputFile \<and> x \<notin> set (partKeys resolve inputFile numThreads) \<longrightarrow>
                 fs' x = fs x)"
    by blast
next
  assume "\<exists>i \<in> set sched. workerError resolve encodeAll flt fs inputFile level offset i \<noteq> None"
  from first_Some [OF this] obtain pre i post e where
    split: "sched = pre @ i # post"
    and pre: "\<forall>j \<in> set pre. workerError resolve encodeAll flt fs inputFile level offset j = None"
    and i: "workerError resolve encodeAll flt fs inputFile level offset i = Some e"
    by blast
  from compressFileBlock_worker_error [where fs = fs and resolve = resolve
      and inputFile = inputFile and content = content and numThreads = numThreads
      and offset = offset and sched = sched and pre = pre and i = i and post = post
      and encodeAll = encodeAll and flt = flt and level = level and e = e and cflt = cflt
      and outputFile = outputFile, OF assms(1,2,3,9,7,10) split pre i]
  show "\<exists>fs' printed.
      compressFileBlock resolve encodeAll flt cflt sched fs inputFile outputFile level
        numThreads = (Panic SomeErrorsSeeAbove, fs', printed) \<and>
      (\<forall>x. fs x \<noteq> None \<longrightarrow> fs' x \<noteq> None) \<and>
      (\<forall>j \<in> set sched.
         workerError resolve encodeAll flt fs inputFile level offset j = None \<longrightarrow>
         fs' (resolve (partName inputFile j)) \<noteq> None)"
    by blast
next
  assume a: "(\<forall>i \<in> set sched. workerError resolve encodeAll flt fs inputFile level offset i = None) \<and>
      failsWithin cflt (nat numThreads)"
  then have fine: "\<forall>i \<in> set sched. workerError resolve encodeAll flt fs inputFile level offset i = None"
    and cf: "failsWithin cflt (nat numThreads)" by blast+
  from compressFileBlock_concatenate_failure [where fs = fs and resolve = resolve
      and inputFile = inputFile and content = content and numThreads = numThreads
      and offset = offset and sched = sched and encodeAll = encodeAll and flt = flt
      and level = level and cflt = cflt and outputFile = outputFile,
      OF assms(1,2,3,9,7,10) fine cf]
  show "\<exists>fs'. compressFileBlock resolve encodeAll flt cflt sched fs inputFile outputFile level
           numThreads = (Ok (), fs', []) \<and>
         (\<forall>x. fs x \<noteq> None \<longrightarrow> fs' x \<noteq> None) \<and>
         (\<forall>k \<in> set (partKeys resolve inputFile numThreads). fs' k \<noteq> None)" .
qed

theorem compressFileBlock_removes_parts_witness:
  "[''in'' \<mapsto> [1, 2, 3 :: byte]] (stripDotSlash ''in'') = Some [1, 2, 3] \<and>
   int (length [1, 2, 3 :: byte]) \<le> maxPlannedSize \<and>
   (1 :: int) \<le> 4 \<and> (4 :: int) < 2 ^ 63 \<and>
   Base ''in'' \<noteq> ''/'' \<and>
   distinct (partKeys stripDotSlash ''in'' 4) \<and>
   stripDotSlash ''in'' \<notin> set (partKeys stripDotSlash ''in'' 4) \<and>
   stripDotSlash ''./out'' \<notin> set (partKeys stripDotSlash ''in'' 4) \<and>
   divideFileIntoSegments (int (length [1, 2, 3 :: byte])) 4 = Inr [(0, 3), (3, 3), (3, 3), (3, 3)] \<and>
   mset [1, 0, 2, 3] = mset [0 .. 4 - (1 :: int)] \<and>
   (\<exists>fs'. compressFileBlock stripDotSlash toyEncodeAll (\<lambda>i. NoFault) NoCFault [1, 0, 2, 3]
             [''in'' \<mapsto> [1, 2, 3]] ''in'' ''./out'' 3 4 = (Ok (), fs', []) \<and>
      fs' (stripDotSlash (partName ''in'' 0)) = None \<and>
      fs' (stripDotSlash (partName ''in'' 3)) = None \<and>
      fs' (stripDotSlash ''in'') = Some [1, 2, 3]) \<and>
   workerError stripDotSlash toyEncodeAll (\<lambda>i. if i = 0 then ReadFails 0 else NoFault)
     [''in'' \<mapsto> [1, 2, 3]] ''in'' 3 [(0, 3), (3, 3), (3, 3), (3, 3)] 0 =
     Some (ReadInputFailed ''in'') \<and>
   workerError stripDotSlash toyEncodeAll (\<lambda>i. if i = 0 then ReadFails 0 else NoFault)
     [''in'' \<mapsto> [1, 2, 3]] ''in'' 3 [(0, 3), (3, 3), (3, 3), (3, 3)] 1 = None \<and>
   (\<exists>fs' printed.
      compressFileBlock stripDotSlash toyEncodeAll (\<lambda>i. if i = 0 then ReadFails 0 else NoFault)
        NoCFault [1, 0, 2, 3] [''in'' \<mapsto> [1, 2, 3]] ''in'' ''./out'' 3 4 =
        (Panic SomeErrorsSeeAbove, fs', printed) \<and>
      fs' (stripDotSlash (partName ''in'' 1)) \<noteq> None) \<and>
   failsWithin (CopyWriteFails 2) (nat 4) \<and>
   (\<exists>fs'. compressFileBlock stripDotSlash toyEncodeAll (\<lambda>i. NoFault) (CopyWriteFails 2) [1, 0, 2, 3]
             [''in'' \<mapsto> [1, 2, 3]] ''in'' ''./out'' 3 4 = (Ok (), fs', []) \<and>
      fs' (stripDotSlash (partName ''in'' 0)) \<noteq> None \<and>
      fs' (stripDotSlash (partName ''in'' 3)) \<noteq> None)"
proof -
  let ?fs = "[''in'' \<mapsto> [1, 2, 3 :: byte]]"
  let ?offset = "[(0, 3), (3, 3), (3, 3), (3, 3 :: int)]"
  let ?bad = "\<lambda>i :: int. if i = 0 then ReadFails 0 else NoFault"
  let ?good = "\<lambda>i :: int. NoFault"
  have h1: "?fs (stripDotSlash ''in'') = Some [1, 2, 3]" by simp
  have h2: "int (length [1, 2, 3 :: byte]) \<le> maxPlannedSize" by (simp add: maxPlannedSize_def)
  have h3: "(1 :: int) \<le> 4" and h4: "(4 :: int) < 2 ^ 63" by simp_all
  have h5: "Base ''in'' \<noteq> ''/''" by (simp add: Base_in)
  have h6: "distinct (partKeys stripDotSlash ''in'' 4)"
    and h7: "stripDotSlash ''in'' \<notin> set (partKeys stripDotSlash ''in'' 4)"
    and h8: "stripDotSlash ''./out'' \<notin> set (partKeys stripDotSlash ''in'' 4)"
    by (rule example_files_apart; simp)+
  have h10: "mset [1, 0, 2, 3] = mset [0 .. 4 - (1 :: int)]" by (simp add: upto_0_3)
  have k0: "stripDotSlash (partName ''in'' 0) \<in> set (partKeys stripDotSlash ''in'' 4)"
    and k3: "stripDotSlash (partName ''in'' 3) \<in> set (partKeys stripDotSlash ''in'' 4)"
    by (rule partKeys_member; simp)+
  have bad0: "workerError stripDotSlash toyEncodeAll ?bad ?fs ''in'' 3 ?offset 0 =
      Some (ReadInputFailed ''in'')"
    by (rule example_worker_fails) simp
  have bad1: "workerError stripDotSlash toyEncodeAll ?bad ?fs ''in'' 3 ?offset 1 = None"
    by (rule example_worker_fine) simp_all
  have good: "\<forall>i \<in> set [1, 0, 2, 3].
      workerError stripDotSlash toyEncodeAll ?good ?fs ''in'' 3 ?offset i = None"
  proof
    fix i :: int assume "i \<in> set [1, 0, 2, 3]"
    then have "0 \<le> i" "i < 4" by auto
    then show "workerError stripDotSlash toyEncodeAll ?good ?fs ''in'' 3 ?offset i = None"
      by (rule example_worker_fine) simp
  qed
  have fw: "failsWithin (CopyWriteFails 2) (nat 4)" by simp
  note failing = compressFileBlock_removes_parts [where fs = ?fs and resolve = stripDotSlash
      and inputFile = "''in''" and content = "[1, 2, 3]" and numThreads = 4 and outputFile = "''./out''"
      and offset = ?offset and sched = "[1, 0, 2, 3]" and encodeAll = toyEncodeAll and level = 3
      and flt = ?bad and cflt = NoCFault,
      OF h1 h2 h3 h4 h5 h6 h7 h8 plan_3_bytes_4_threads h10]
  note copying = compressFileBlock_removes_parts [where fs = ?fs and resolve = stripDotSlash
      and inputFile = "''in''" and content = "[1, 2, 3]" and numThreads = 4 and outputFile = "''./out''"
      and offset = ?offset and sched = "[1, 0, 2, 3]" and encodeAll = toyEncodeAll and level = 3
      and flt = ?good and cflt = "CopyWriteFails 2",
      OF h1 h2 h3 h4 h5 h6 h7 h8 plan_3_bytes_4_threads h10]
  from conjunct1 [OF failing] obtain fs1 where
    run1: "compressFileBlock stripDotSlash toyEncodeAll ?good NoCFault [1, 0, 2, 3] ?fs ''in''
        ''./out'' 3 4 = (Ok (), fs1, [])"
    and gone: "\<forall>k \<in> set (partKeys stripDotSlash ''in'' 4). fs1 k = None"
    and frame: "\<forall>x. x \<noteq> stripDotSlash ''./out'' \<and> x \<notin> set (partKeys stripDotSlash ''in'' 4) \<longrightarrow>
        fs1 x = ?fs x"
    by (elim exE conjE)
  have g0: "fs1 (stripDotSlash (partName ''in'' 0)) = None" using bspec [OF gone k0] .
  have g3: "fs1 (stripDotSlash (partName ''in'' 3)) = None" using bspec [OF gone k3] .
  have "stripDotSlash ''in'' \<noteq> stripDotSlash ''./out'' \<and>
      stripDotSlash ''in'' \<notin> set (partKeys stripDotSlash ''in'' 4)"
    using h7 by simp
  from mp [OF spec [OF frame] this] have inp: "fs1 (stripDotSlash ''in'') = Some [1, 2, 3]"
    by simp
  have c1: "\<exists>fs'. compressFileBlock stripDotSlash toyEncodeAll ?good NoCFault [1, 0, 2, 3] ?fs ''in''
        ''./out'' 3 4 = (Ok (), fs', []) \<and>
      fs' (stripDotSlash (partName ''in'' 0)) = None \<and>
      fs' (stripDotSlash (partName ''in'' 3)) = None \<and>
      fs' (stripDotSlash ''in'') = Some [1, 2, 3]"
    using run1 g0 g3 inp by (intro exI [of _ fs1] conjI)
  have "\<exists>i \<in> set [1, 0, 2, 3].
      workerError stripDotSlash toyEncodeAll ?bad ?fs ''in'' 3 ?offset i \<noteq> None"
    using bad0 by simp
  from mp [OF conjunct1 [OF conjunct2 [OF failing]] this] obtain fs2 printed where
    run2: "compressFileBlock stripDotSlash toyEncodeAll ?bad NoCFault [1, 0, 2, 3] ?fs ''in''
        ''./out'' 3 4 = (Panic SomeErrorsSeeAbove, fs2, printed)"
    and left: "\<forall>j \<in> set [1, 0, 2, 3].
        workerError stripDotSlash toyEncodeAll ?bad ?fs ''in'' 3 ?offset j = None \<longrightarrow>
        fs2 (stripDotSlash (partName ''in'' j)) \<noteq> None"
    by (elim exE conjE)
  have "(1 :: int) \<in> set [1, 0, 2, 3]" by simp
  from mp [OF bspec [OF left this] bad1]
  have l1: "fs2 (stripDotSlash (partName ''in'' 1)) \<noteq> None" .
  have c2: "\<exists>fs' printed.
      compressFileBlock stripDotSlash toyEncodeAll ?bad NoCFault [1, 0, 2, 3] ?fs ''in'' ''./out'' 3 4 =
        (Panic SomeErrorsSeeAbove, fs', printed) \<and>
      fs' (stripDotSlash (partName ''in'' 1)) \<noteq> None"
    using run2 l1 by (intro exI [of _ fs2] exI [of _ printed] conjI)
  from mp [OF conjunct2 [OF conjunct2 [OF copying]] conjI [OF good fw]] obtain fs3 where
    run3: "compressFileBlock stripDotSlash toyEncodeAll ?good (CopyWriteFails 2) [1, 0, 2, 3] ?fs ''in''
        ''./out'' 3 4 = (Ok (), fs3, [])"
    and stay: "\<forall>k \<in> set (partKeys stripDotSlash ''in'' 4). fs3 k \<noteq> None"
    by (elim exE conjE)
  have s0: "fs3 (stripDotSlash (partName ''in'' 0)) \<noteq> None" using bspec [OF stay k0] .
  have s3: "fs3 (stripDotSlash (partName ''in'' 3)) \<noteq> None" using bspec [OF stay k3] .
  have c3: "\<exists>fs'. compressFileBlock stripDotSlash toyEncodeAll ?good (CopyWriteFails 2) [1, 0, 2, 3]
        ?fs ''in'' ''./out'' 3 4 = (Ok (), fs', []) \<and>
      fs' (stripDotSlash (partName ''in'' 0)) \<noteq> None \<and>
      fs' (stripDotSlash (partName ''in'' 3)) \<noteq> None"
    using run3 s0 s3 by (intro exI [of _ fs3] conjI)
  show ?thesis
    by (intro conjI)
       (rule h1 h2 h3 h4 h5 h6 h7 h8 plan_3_bytes_4_threads h10 c1 bad0 bad1 c2 fw c3)+
qed

text \<open>
  Claim C9 as stated fails on a failure path: when the worker of segment 2 of a
  four-segment plan fails to read, the pipeline panics and the part file of segment 0 is
  still in the file system.
\<close>

theorem compressFileBlock_removes_parts_counterexample:
  "fst (compressFileBlock stripDotSlash toyEncodeAll (\<lambda>i. if i = 2 then ReadFails 0 else NoFault)
          NoCFault [0, 1, 2, 3] [''in'' \<mapsto> [1, 2, 3]] ''in'' ''out'' 3 4) = Panic SomeErrorsSeeAbove \<and>
   fst (snd (compressFileBlock stripDotSlash toyEncodeAll (\<lambda>i. if i = 2 then ReadFails 0 else NoFault)
          NoCFault [0, 1, 2, 3] [''in'' \<mapsto> [1, 2, 3]] ''in'' ''out'' 3 4))
     ''0-in-output-segment.part0'' \<noteq> None"
  using one_failing_worker_of_four [of 2] unfolding partName_in_0
  by auto

section \<open>An output path that names a part file\<close>

text \<open>
  When the output path names a part file, here by another spelling of its name, the
  pipeline returns without error and leaves no output file: creating the output empties
  the part, and the last loop of \<^verbatim>\<open>concatenateFiles\<close> removes it with the parts.  This is
  why the properties of whole runs above ask that the output file is none of the part
  files.
\<close>

lemma plan_3_bytes_1_thread:
  "divideFileIntoSegments (int (length [1, 2, 3 :: byte])) 1 = Inr [(0, 3)]"
  by code_simp

lemma fileIndex_part_0: "fileIndex ''0-in-output-segment.part0'' = Some 0"
  by code_simp

lemma stripDotSlash_dot_part_0 [simp]:
  "stripDotSlash ''./0-in-output-segment.part0'' = ''0-in-output-segment.part0''"
  using stripDotSlash_dot [of "''0-in-output-segment.part0''"] by simp

lemma compressFileBlock_output_names_part:
  "fst (compressFileBlock stripDotSlash toyEncodeAll (\<lambda>i. NoFault) NoCFault [0]
          [''in'' \<mapsto> [1, 2, 3]] ''in'' ''./0-in-output-segment.part0'' 3 1) = Ok () \<and>
   fst (snd (compressFileBlock stripDotSlash toyEncodeAll (\<lambda>i. NoFault) NoCFault [0]
          [''in'' \<mapsto> [1, 2, 3]] ''in'' ''./0-in-output-segment.part0'' 3 1))
     (stripDotSlash ''./0-in-output-segment.part0'') = None"
proof -
  let ?fs = "[''in'' \<mapsto> [1, 2, 3 :: byte]]"
  let ?part = "''0-in-output-segment.part0''"
  have w: "compressPart stripDotSlash toyEncodeAll NoFault ?fs ''in'' 0 (0, 3) 3 =
      (Ok ?part, ?fs(?part \<mapsto> [1, 1, 1, 2, 1, 3, 0]))"
    by (simp add: compressPart_def readLoop_unfold Let_def oneMB_def partName_in_0 toyEncodeAll_def)
  have run: "runWorkers stripDotSlash toyEncodeAll (\<lambda>i. NoFault) ''in'' 3 [(0, 3)] [0] ?fs =
      (None, ?fs(?part \<mapsto> [1, 1, 1, 2, 1, 3, 0]), [?part], [])"
    by (simp add: w)
  have "\<forall>f \<in> set [?part]. fileIndex f \<noteq> None" by (simp add: fileIndex_part_0)
  from extractIndexes_ok [OF this, of "[]"]
  have x: "extractIndexes [?part] [] = Inr [\<lparr>Index = 0, Name = ?part\<rparr>]"
    by (simp add: withIndex_def fileIndex_part_0)
  have cf: "concatenateFiles stripDotSlash NoCFault (?fs(?part \<mapsto> [1, 1, 1, 2, 1, 3, 0])) [?part]
      ''./0-in-output-segment.part0'' = (Ok (), (?fs(?part \<mapsto> []))(?part := None))"
    unfolding concatenateFiles_def x by simp
  have "compressFileBlock stripDotSlash toyEncodeAll (\<lambda>i. NoFault) NoCFault [0] ?fs ''in''
      ''./0-in-output-segment.part0'' 3 1 = (Ok (), (?fs(?part \<mapsto> []))(?part := None), [])"
    unfolding compressFileBlock_def using plan_3_bytes_1_thread run cf by simp
  then show ?thesis by simp
qed
end
